theory Spec2Isabelle
  imports Main "HOL-Library.DAList"
begin

section \<open>Rolling replacement of the instances of an autoscaling group\<close>

text \<open>
  A shallow embedding of \<^verbatim>\<open>src/aws/asg/rolling/deploy.py\<close>: the classes
  \<^verbatim>\<open>Inventory\<close> and \<^verbatim>\<open>Deploy\<close>, \<^verbatim>\<open>parse_args\<close> and the
  main block. The program talks to three things outside itself: the autoscaling
  client, the EC2 resource and the shelve database file. Their answers are
  parameters of the model (\<open>env\<close>, and the file system in \<open>world\<close>), and every call
  the program makes on them is appended to a trace.
\<close>

subsection \<open>Data\<close>

text \<open>
  The response of \<^verbatim>\<open>describe_auto_scaling_groups\<close>: a list of groups, each with
  its \<^verbatim>\<open>'Instances'\<close>, each of those with its \<^verbatim>\<open>'InstanceId'\<close>. The other keys of
  the response are never read.
\<close>

datatype instance_desc = InstanceDesc (InstanceId: string)

datatype asg_group = Group (Instances: "instance_desc list")

text \<open>
  A shelf (\<^verbatim>\<open>shelve.open\<close> without writeback) is a database of keys and values:
  keys are unique, an assignment to a present key replaces the value in place, an
  assignment to a new key adds it after the others. \<^verbatim>\<open>keys()\<close> is taken to list
  the keys in that order, which an assignment to a present key does not change (the
  order of a Python dict; \<^verbatim>\<open>shelve\<close> itself leaves the order to the database).
  Every assignment goes to the database at once; \<^verbatim>\<open>sync()\<close> is recorded as an
  event of its own.
\<close>

type_synonym shelf = "(string, string) alist"

definition shelf_keys :: "shelf \<Rightarrow> string list" where
  "shelf_keys s = map fst (DAList.impl_of s)"

definition shelf_items :: "shelf \<Rightarrow> (string \<times> string) list" where
  "shelf_items s = DAList.impl_of s"

text \<open>What the program does to the outside, in the order it does it.\<close>

datatype event =
    ShelveOpen string                \<comment> \<open>\<^verbatim>\<open>shelve.open(store_file)\<close>\<close>
  | DescribeGroups string            \<comment> \<open>\<^verbatim>\<open>asg.describe_auto_scaling_groups(AutoScalingGroupNames=[n])\<close>\<close>
  | StoreSet string string           \<comment> \<open>\<^verbatim>\<open>state[k] = v\<close>\<close>
  | StoreSync                        \<comment> \<open>\<^verbatim>\<open>state.sync()\<close>\<close>
  | SetUnhealthy string              \<comment> \<open>\<^verbatim>\<open>asg.set_instance_health(InstanceId=i, HealthStatus='Unhealthy')\<close>\<close>
  | Sleep                            \<comment> \<open>\<^verbatim>\<open>sleep(15)\<close>\<close>
  | Reload string string             \<comment> \<open>\<^verbatim>\<open>reload()\<close> of an instance, and the state name it then shows\<close>
  | LogError string                  \<comment> \<open>\<^verbatim>\<open>logger.error(msg)\<close>\<close>
  | DebugRemovalList "string list"   \<comment> \<open>\<^verbatim>\<open>logger.debug('removal list: ' + str(remove))\<close>\<close>
  | Unlink string                    \<comment> \<open>\<^verbatim>\<open>os.unlink(path)\<close>\<close>

text \<open>
  The info-level log lines carry nothing the program reads again and are left out
  of the trace. The clock counts the calls of \<^verbatim>\<open>sleep(15)\<close>.
\<close>

record world =
  files :: "string \<Rightarrow> shelf option"
  trace :: "event list"
  clock :: nat

text \<open>
  The collaborators: the groups the autoscaling client returns for a name, and the
  state name an instance shows when it is reloaded at a given tick of the clock.
  Both are taken to answer (an error of the cloud API is not modelled).
\<close>

record env =
  describe_auto_scaling_groups :: "string \<Rightarrow> asg_group list"
  instance_state_name :: "nat \<Rightarrow> string \<Rightarrow> string"

text \<open>
  How a call ends: it returns a value, it raises (\<^verbatim>\<open>exit(1)\<close> raises
  \<^verbatim>\<open>SystemExit\<close>), or it is still running when the fuel of the model is used up.
  Both loops of the program are unbounded. A loop run with fuel \<open>n\<close> makes at most
  \<open>n\<close> iterations, and gives the loop inside it fuel \<open>n - 1\<close>; out of fuel it stops
  with \<open>Running\<close> and the world as it is at that point. That the program returns is
  "some fuel gives \<open>Returned\<close>" (and then every larger fuel gives the same world);
  that it runs forever is "every fuel gives \<open>Running\<close>".
\<close>

datatype error = SystemExit nat | TypeError | FileNotFoundError

datatype 'a outcome = Returned 'a | Raised error | Running

definition boot :: "(string \<Rightarrow> shelf option) \<Rightarrow> world" where
  "boot fs = \<lparr>files = fs, trace = [], clock = 0\<rparr>"

definition emit :: "event \<Rightarrow> world \<Rightarrow> world" where
  "emit e w = w\<lparr>trace := trace w @ [e]\<rparr>"

subsection \<open>The shelf\<close>

definition shelf_at :: "world \<Rightarrow> string \<Rightarrow> shelf" where
  "shelf_at w p = (case files w p of None \<Rightarrow> DAList.empty | Some s \<Rightarrow> s)"

text \<open>\<^verbatim>\<open>shelve.open(p)\<close>, flag \<^verbatim>\<open>'c'\<close>: opens the database at \<open>p\<close>, and creates it
  empty when there is none.\<close>

definition shelve_open :: "string \<Rightarrow> world \<Rightarrow> world" where
  "shelve_open p w = emit (ShelveOpen p) (w\<lparr>files := (files w)(p \<mapsto> shelf_at w p)\<rparr>)"

definition store_set :: "string \<Rightarrow> string \<Rightarrow> string \<Rightarrow> world \<Rightarrow> world" where
  "store_set p k v w =
     emit (StoreSet k v) (w\<lparr>files := (files w)(p \<mapsto> DAList.update k v (shelf_at w p))\<rparr>)"

definition store_sync :: "world \<Rightarrow> world" where
  "store_sync w = emit StoreSync w"

text \<open>Python's \<^verbatim>\<open>xs[lo:hi]\<close> for integers of either sign.\<close>

definition py_bound :: "int \<Rightarrow> int \<Rightarrow> int" where
  "py_bound n i = (if i < 0 then max (i + n) 0 else min i n)"

definition py_slice :: "'a list \<Rightarrow> int \<Rightarrow> int \<Rightarrow> 'a list" where
  "py_slice xs lo hi =
     (let n = int (length xs); l = py_bound n lo; h = py_bound n hi
      in if l < h then take (nat (h - l)) (drop (nat l) xs) else [])"

subsection \<open>Inventory\<close>

definition query_asg :: "env \<Rightarrow> string \<Rightarrow> world \<Rightarrow> asg_group option outcome \<times> world" where
  "query_asg e asg_name w =
     (let w1 = emit (DescribeGroups asg_name) w;
          groups = describe_auto_scaling_groups e asg_name
      in if length groups = 1 then (Returned (Some (groups ! 0)), w1)
         else if length groups = 0 then
           (Raised (SystemExit 1),
            emit (LogError (''AutoScaling group '' @ asg_name @ '' not found!'')) w1)
         else (Returned None, w1))"

text \<open>With more than one group \<^verbatim>\<open>query_asg\<close> falls off its \<^verbatim>\<open>if\<close> and returns
  \<^verbatim>\<open>None\<close>; subscripting that with \<^verbatim>\<open>['Instances']\<close> raises \<^verbatim>\<open>TypeError\<close>.\<close>

definition new_instance_state :: "env \<Rightarrow> string \<Rightarrow> string \<Rightarrow> world \<Rightarrow> unit outcome \<times> world" where
  "new_instance_state e asg_name store_file w =
     (case query_asg e asg_name (shelve_open store_file w) of
        (Returned (Some g), w2) \<Rightarrow>
          (Returned (),
           fold (\<lambda>i. store_set store_file (InstanceId i) ''pending_replacement'')
             (Instances g) w2)
      | (Returned None, w2) \<Rightarrow> (Raised TypeError, w2)
      | (Raised x, w2) \<Rightarrow> (Raised x, w2)
      | (Running, w2) \<Rightarrow> (Running, w2))"

definition update_state :: "string \<Rightarrow> string \<Rightarrow> string \<Rightarrow> world \<Rightarrow> world" where
  "update_state store_file inst st w = store_sync (store_set store_file inst st w)"

definition get_inventory :: "string \<Rightarrow> world \<Rightarrow> (string \<times> string) list" where
  "get_inventory store_file w = shelf_items (shelf_at w store_file)"

subsection \<open>Deploy\<close>

definition trigger_instance_removal :: "string \<Rightarrow> world \<Rightarrow> world" where
  "trigger_instance_removal instance_id w = emit (SetUnhealthy instance_id) w"

text \<open>
  \<^verbatim>\<open>monitored\<close> is a dict keyed by instance id: its keys are the ids in the order
  they were first put in.
\<close>

fun dict_keys :: "string list \<Rightarrow> string list" where
  "dict_keys [] = []"
| "dict_keys (x # xs) = x # removeAll x (dict_keys xs)"

text \<open>One instance of a polling round: reload it, and when it shows
  \<^verbatim>\<open>'terminated'\<close> write that into the shelf and drop it from \<^verbatim>\<open>monitored\<close>.
  The write is the assignment \<^verbatim>\<open>self.inventory.state[i] = 'terminated'\<close>.\<close>

definition poll_one :: "env \<Rightarrow> string \<Rightarrow> string \<Rightarrow> world \<times> string list \<Rightarrow> world \<times> string list" where
  "poll_one e store_file i = (\<lambda>(w, monitored).
     (let nm = instance_state_name e (clock w) i;
          w1 = emit (Reload i nm) w
      in if nm = ''terminated''
         then (store_set store_file i ''terminated'' w1, removeAll i monitored)
         else (w1, monitored)))"

definition poll_round :: "env \<Rightarrow> string \<Rightarrow> string list \<Rightarrow> world \<Rightarrow> world \<times> string list" where
  "poll_round e store_file monitored w =
     fold (poll_one e store_file) monitored (w, monitored)"

definition sleep :: "world \<Rightarrow> world" where
  "sleep w = emit Sleep (w\<lparr>clock := Suc (clock w)\<rparr>)"

fun monitor_loop :: "nat \<Rightarrow> env \<Rightarrow> string \<Rightarrow> string list \<Rightarrow> world \<Rightarrow> unit outcome \<times> world" where
  "monitor_loop fuel e store_file monitored w =
     (if length monitored > 0 then
        (case fuel of
           0 \<Rightarrow> (Running, w)
         | Suc f \<Rightarrow>
             (case poll_round e store_file monitored (sleep w) of
                (w1, monitored1) \<Rightarrow> monitor_loop f e store_file monitored1 w1))
      else (Returned (), w))"

definition monitor_instance_termination ::
  "nat \<Rightarrow> env \<Rightarrow> string \<Rightarrow> string list \<Rightarrow> world \<Rightarrow> unit outcome \<times> world" where
  "monitor_instance_termination fuel e store_file instance_ids w =
     monitor_loop fuel e store_file (dict_keys instance_ids) w"

fun execute_loop ::
  "nat \<Rightarrow> env \<Rightarrow> string \<Rightarrow> int \<Rightarrow> int \<Rightarrow> int \<Rightarrow> world \<Rightarrow> unit outcome \<times> world" where
  "execute_loop fuel e store_file batch total_instances instance_index w =
     (if instance_index < total_instances then
        (case fuel of
           0 \<Rightarrow> (Running, w)
         | Suc f \<Rightarrow>
             (let remove = py_slice (shelf_keys (shelf_at w store_file))
                             instance_index (instance_index + batch);
                  w1 = emit (DebugRemovalList remove) w;
                  w2 = fold trigger_instance_removal remove w1
              in case monitor_instance_termination f e store_file remove w2 of
                   (Returned u, w3) \<Rightarrow>
                     execute_loop f e store_file batch total_instances
                       (instance_index + batch) w3
                 | (r, w3) \<Rightarrow> (r, w3)))
      else (Returned (), w))"

definition execute :: "nat \<Rightarrow> env \<Rightarrow> string \<Rightarrow> int \<Rightarrow> string \<Rightarrow> world \<Rightarrow> unit outcome \<times> world" where
  "execute fuel e target_asg batch store_file w =
     (case new_instance_state e target_asg store_file w of
        (Returned u, w1) \<Rightarrow>
          execute_loop fuel e store_file batch
            (int (length (shelf_keys (shelf_at w1 store_file)))) 0 w1
      | (r, w1) \<Rightarrow> (r, w1))"

subsection \<open>The command line and the main block\<close>

record args =
  batch :: int
  group :: string
  region :: string
  state :: string

definition parse_args :: "int option \<Rightarrow> string \<Rightarrow> string \<Rightarrow> string option \<Rightarrow> args" where
  "parse_args b g r s =
     (let st = (case s of None \<Rightarrow> ''dynamic'' | Some x \<Rightarrow> x)
      in \<lparr>batch = (case b of None \<Rightarrow> 1 | Some n \<Rightarrow> n), group = g, region = r,
          state = (if st = ''dynamic'' then g @ ''.state'' else st)\<rparr>)"

definition os_unlink :: "string \<Rightarrow> world \<Rightarrow> unit outcome \<times> world" where
  "os_unlink p w =
     (case files w p of
        None \<Rightarrow> (Raised FileNotFoundError, emit (Unlink p) w)
      | Some s \<Rightarrow> (Returned (), emit (Unlink p) (w\<lparr>files := (files w)(p := None)\<rparr>)))"

definition main :: "nat \<Rightarrow> env \<Rightarrow> args \<Rightarrow> world \<Rightarrow> unit outcome \<times> world" where
  "main fuel e a w =
     (case execute fuel e (group a) (batch a) (state a) w of
        (Returned u, w1) \<Rightarrow> os_unlink (state a) w1
      | (r, w1) \<Rightarrow> (r, w1))"

text \<open>The exit status of the process: an uncaught exception other than
  \<^verbatim>\<open>SystemExit\<close> ends the interpreter with status 1.\<close>

fun exit_status :: "unit outcome \<Rightarrow> nat option" where
  "exit_status (Returned u) = Some 0"
| "exit_status (Raised (SystemExit n)) = Some n"
| "exit_status (Raised x) = Some 1"
| "exit_status Running = None"

subsection \<open>Reading a world\<close>

text \<open>The keys of the shelf at a path, in the order \<^verbatim>\<open>keys()\<close> lists them, and the
  value stored under a key.\<close>

definition keys_at :: "world \<Rightarrow> string \<Rightarrow> string list" where
  "keys_at w p = shelf_keys (shelf_at w p)"

definition value_at :: "world \<Rightarrow> string \<Rightarrow> string \<Rightarrow> string option" where
  "value_at w p = DAList.lookup (shelf_at w p)"

text \<open>The world after the snapshot, from which the batch loop starts.\<close>

definition snapshot :: "env \<Rightarrow> string \<Rightarrow> string \<Rightarrow> (string \<Rightarrow> shelf option) \<Rightarrow> world" where
  "snapshot e g p fs = snd (new_instance_state e g p (boot fs))"

text \<open>The keys of the shelf when the snapshot has been taken: the stable order the
  batches are cut from. \<^verbatim>\<open>total_instances\<close> is their number.\<close>

definition snapshot_keys :: "env \<Rightarrow> string \<Rightarrow> string \<Rightarrow> (string \<Rightarrow> shelf option) \<Rightarrow> string list" where
  "snapshot_keys e g p fs = keys_at (snapshot e g p fs) p"

text \<open>A run of \<^verbatim>\<open>execute\<close> from a fresh process: how it ended and what it did.\<close>

definition run_outcome ::
  "nat \<Rightarrow> env \<Rightarrow> string \<Rightarrow> int \<Rightarrow> string \<Rightarrow> (string \<Rightarrow> shelf option) \<Rightarrow> unit outcome" where
  "run_outcome fuel e g b p fs = fst (execute fuel e g b p (boot fs))"

definition run_world ::
  "nat \<Rightarrow> env \<Rightarrow> string \<Rightarrow> int \<Rightarrow> string \<Rightarrow> (string \<Rightarrow> shelf option) \<Rightarrow> world" where
  "run_world fuel e g b p fs = snd (execute fuel e g b p (boot fs))"

text \<open>The removal lists a trace shows, one per iteration of the batch loop, and the
  identifiers for which a removal was triggered, both in order.\<close>

definition removal_lists :: "event list \<Rightarrow> string list list" where
  "removal_lists tr = concat (map (\<lambda>ev. case ev of DebugRemovalList xs \<Rightarrow> [xs] | _ \<Rightarrow> []) tr)"

definition triggers :: "event list \<Rightarrow> string list" where
  "triggers tr = concat (map (\<lambda>ev. case ev of SetUnhealthy i \<Rightarrow> [i] | _ \<Rightarrow> []) tr)"

subsection \<open>One iteration of the batch loop\<close>

text \<open>The slice \<^verbatim>\<open>remove\<close> of an iteration, and the world when its removals have been
  triggered and the polling starts.\<close>

definition removal_slice :: "world \<Rightarrow> string \<Rightarrow> int \<Rightarrow> int \<Rightarrow> string list" where
  "removal_slice w p i b = py_slice (keys_at w p) i (i + b)"

definition triggered :: "string list \<Rightarrow> world \<Rightarrow> world" where
  "triggered remove w = fold trigger_instance_removal remove (emit (DebugRemovalList remove) w)"

text \<open>The events one call of \<^verbatim>\<open>monitor_instance_termination\<close> on the ids \<open>xs\<close>
  can add to the trace.\<close>

fun is_poll_event :: "string list \<Rightarrow> event \<Rightarrow> bool" where
  "is_poll_event xs Sleep = True"
| "is_poll_event xs (Reload i s) = (i \<in> set xs)"
| "is_poll_event xs (StoreSet i v) = (i \<in> set xs \<and> v = ''terminated'')"
| "is_poll_event xs ev = False"

text \<open>The events the batch loop can add to the trace when the shelf has the keys \<open>ks\<close>.\<close>

fun is_loop_event :: "string list \<Rightarrow> event \<Rightarrow> bool" where
  "is_loop_event ks (DebugRemovalList xs) = (set xs \<subseteq> set ks)"
| "is_loop_event ks (SetUnhealthy i) = (i \<in> set ks)"
| "is_loop_event ks ev = is_poll_event ks ev"

text \<open>A later point of a run, seen from an earlier one: the trace has grown at its end
  and what was \<^verbatim>\<open>'terminated'\<close> in the shelf at \<open>p\<close> still is.\<close>

definition extends :: "string \<Rightarrow> world \<Rightarrow> world \<Rightarrow> bool" where
  "extends p w w' \<longleftrightarrow>
     (\<exists>evs. trace w' = trace w @ evs)
   \<and> (\<forall>k. value_at w p k = Some ''terminated'' \<longrightarrow> value_at w' p k = Some ''terminated'')"

subsection \<open>Batches\<close>

text \<open>Batch \<open>k\<close> of a snapshot, as the specification has it: the \<open>k\<close>-th slice of
  \<open>b\<close> consecutive identifiers; and the number \<open>\<lceil>n / b\<rceil>\<close> of batches.\<close>

definition batch_of :: "'a list \<Rightarrow> nat \<Rightarrow> nat \<Rightarrow> 'a list" where
  "batch_of ks b k = take b (drop (k * b) ks)"

definition ceil_div :: "nat \<Rightarrow> nat \<Rightarrow> nat" where
  "ceil_div n b = (n + b - 1) div b"

subsection \<open>Concrete collaborators\<close>

text \<open>An autoscaling client that knows no group of any name.\<close>

definition env_none :: env where
  "env_none = \<lparr>describe_auto_scaling_groups = (\<lambda>n. []),
               instance_state_name = (\<lambda>t i. ''running'')\<rparr>"

text \<open>An autoscaling client that returns two groups for every name.\<close>

definition env_two :: env where
  "env_two = \<lparr>describe_auto_scaling_groups =
                 (\<lambda>n. [Group [InstanceDesc ''i-1''], Group [InstanceDesc ''i-2'']]),
              instance_state_name = (\<lambda>t i. ''terminated'')\<rparr>"

text \<open>A group of one instance, which shows \<^verbatim>\<open>'terminated'\<close> at every reload.\<close>

definition env_one :: env where
  "env_one = \<lparr>describe_auto_scaling_groups = (\<lambda>n. [Group [InstanceDesc ''i-1'']]),
              instance_state_name = (\<lambda>t i. ''terminated'')\<rparr>"

text \<open>Three instances, each of which shows \<^verbatim>\<open>'terminated'\<close> from the second tick on.\<close>

definition env_three :: env where
  "env_three = \<lparr>describe_auto_scaling_groups =
                  (\<lambda>n. [Group (map InstanceDesc [''a'', ''b'', ''c''])]),
               instance_state_name = (\<lambda>t i. if 2 \<le> t then ''terminated'' else ''running'')\<rparr>"

text \<open>A group that is found and has no instance.\<close>

definition env_empty :: env where
  "env_empty = \<lparr>describe_auto_scaling_groups = (\<lambda>n. [Group []]),
                instance_state_name = (\<lambda>t i. ''running'')\<rparr>"

section \<open>Properties\<close>

subsection \<open>The shelf and the trace\<close>

declare monitor_loop.simps [simp del] execute_loop.simps [simp del]

lemma emit_simps [simp]:
  "trace (emit ev w) = trace w @ [ev]" "files (emit ev w) = files w" "clock (emit ev w) = clock w"
  by (simp_all add: emit_def)

lemma shelf_keys_update:
  "shelf_keys (DAList.update k v s) = (if k \<in> set (shelf_keys s) then shelf_keys s else shelf_keys s @ [k])"
  by (simp add: shelf_keys_def update.rep_eq update_keys)

lemma distinct_shelf_keys [simp]: "distinct (shelf_keys s)"
  by (simp add: shelf_keys_def)

lemma distinct_keys_at [simp]: "distinct (keys_at w p)"
  by (simp add: keys_at_def)

lemma shelf_keys_empty [simp]: "shelf_keys DAList.empty = []"
  by (simp add: shelf_keys_def empty.rep_eq)

lemma store_set_simps [simp]:
  "trace (store_set p k v w) = trace w @ [StoreSet k v]"
  "clock (store_set p k v w) = clock w"
  "files (store_set p k v w) = (files w)(p \<mapsto> DAList.update k v (shelf_at w p))"
  by (simp_all add: store_set_def)

lemma shelf_at_store_set [simp]:
  "shelf_at (store_set p k v w) p = DAList.update k v (shelf_at w p)"
  by (simp add: shelf_at_def)

lemma keys_at_store_set:
  "keys_at (store_set p k v w) p =
     (if k \<in> set (keys_at w p) then keys_at w p else keys_at w p @ [k])"
  by (simp add: keys_at_def shelf_keys_update)

lemma keys_at_store_set_mem [simp]:
  "k \<in> set (keys_at w p) \<Longrightarrow> keys_at (store_set p k v w) p = keys_at w p"
  by (simp add: keys_at_store_set)

lemma value_at_store_set [simp]:
  "value_at (store_set p k v w) p = (value_at w p)(k \<mapsto> v)"
  by (rule ext) (simp add: value_at_def)

lemma keys_at_emit [simp]: "keys_at (emit ev w) p = keys_at w p"
  by (simp add: keys_at_def shelf_at_def)

lemma value_at_emit [simp]: "value_at (emit ev w) p = value_at w p"
  by (rule ext) (simp add: value_at_def shelf_at_def)

lemma value_at_dom: "dom (value_at w p) = set (keys_at w p)"
  by (simp add: value_at_def keys_at_def shelf_keys_def lookup.rep_eq dom_map_of_conv_image_fst)

lemma sleep_simps [simp]:
  "trace (sleep w) = trace w @ [Sleep]" "clock (sleep w) = Suc (clock w)" "files (sleep w) = files w"
  "keys_at (sleep w) p = keys_at w p" "value_at (sleep w) p = value_at w p"
  by (simp_all add: sleep_def keys_at_def value_at_def shelf_at_def)

lemma fold_trigger_simps [simp]:
  "trace (fold trigger_instance_removal xs w) = trace w @ map SetUnhealthy xs"
  "files (fold trigger_instance_removal xs w) = files w"
  "clock (fold trigger_instance_removal xs w) = clock w"
  by (induction xs arbitrary: w) (simp_all add: trigger_instance_removal_def)

lemma fold_trigger_keys [simp]:
  "keys_at (fold trigger_instance_removal xs w) p = keys_at w p"
  "value_at (fold trigger_instance_removal xs w) p = value_at w p"
  by (simp_all add: keys_at_def value_at_def shelf_at_def)

lemma set_dict_keys [simp]: "set (dict_keys xs) = set xs"
  by (induction xs) auto

lemma dict_keys_distinct [simp]: "distinct xs \<Longrightarrow> dict_keys xs = xs"
  by (induction xs) (auto simp: removeAll_id)

text \<open>One polling round.\<close>

lemma poll_one_eq:
  "poll_one e p i (w, mon) =
     (if instance_state_name e (clock w) i = ''terminated''
      then (store_set p i ''terminated'' (emit (Reload i ''terminated'') w), removeAll i mon)
      else (emit (Reload i (instance_state_name e (clock w) i)) w, mon))"
  by (simp add: poll_one_def Let_def)

lemma poll_fold_clock:
  "fold (poll_one e p) xs (w, mon) = (w', mon') \<Longrightarrow> clock w' = clock w"
  by (induction xs arbitrary: w mon) (auto simp: poll_one_eq split: if_splits)

lemma poll_fold_keys:
  "fold (poll_one e p) xs (w, mon) = (w', mon') \<Longrightarrow> set xs \<subseteq> set (keys_at w p)
     \<Longrightarrow> keys_at w' p = keys_at w p"
  by (induction xs arbitrary: w mon) (auto simp: poll_one_eq split: if_splits)

lemma poll_fold_files:
  "fold (poll_one e p) xs (w, mon) = (w', mon') \<Longrightarrow> q \<noteq> p \<Longrightarrow> files w' q = files w q"
  by (induction xs arbitrary: w mon) (auto simp: poll_one_eq split: if_splits)

lemma poll_fold_mon:
  "fold (poll_one e p) xs (w, mon) = (w', mon') \<Longrightarrow>
     mon' = filter (\<lambda>i. \<not> (i \<in> set xs \<and> instance_state_name e (clock w) i = ''terminated'')) mon"
proof (induction xs arbitrary: w mon)
  case Nil
  then show ?case by simp
next
  case (Cons x xs)
  show ?case
  proof (cases "instance_state_name e (clock w) x = ''terminated''")
    case True
    with Cons.prems have "fold (poll_one e p) xs
        (store_set p x ''terminated'' (emit (Reload x ''terminated'') w), removeAll x mon) = (w', mon')"
      by (simp add: poll_one_eq)
    from Cons.IH[OF this] True show ?thesis
      by (auto simp: removeAll_filter_not_eq intro: filter_cong)
  next
    case False
    with Cons.prems have "fold (poll_one e p) xs
        (emit (Reload x (instance_state_name e (clock w) x)) w, mon) = (w', mon')"
      by (simp add: poll_one_eq)
    from Cons.IH[OF this] False show ?thesis
      by (auto intro: filter_cong)
  qed
qed

lemma is_poll_event_mono: "is_poll_event xs ev \<Longrightarrow> set xs \<subseteq> set ys \<Longrightarrow> is_poll_event ys ev"
  by (cases ev) auto

lemma poll_fold_trace:
  "fold (poll_one e p) xs (w, mon) = (w', mon') \<Longrightarrow>
     \<exists>evs. trace w' = trace w @ evs \<and> (\<forall>ev \<in> set evs. is_poll_event xs ev)
        \<and> (\<forall>i \<in> set xs. instance_state_name e (clock w) i = ''terminated''
               \<longrightarrow> Reload i ''terminated'' \<in> set evs)"
proof (induction xs arbitrary: w mon)
  case Nil
  then show ?case by simp
next
  case (Cons x xs)
  obtain w1 mon1 where s: "poll_one e p x (w, mon) = (w1, mon1)"
    by (cases "poll_one e p x (w, mon)")
  then have r: "fold (poll_one e p) xs (w1, mon1) = (w', mon')" using Cons.prems by simp
  have c: "clock w1 = clock w" using s by (auto simp: poll_one_eq split: if_splits)
  from s obtain ev1 where ev1: "trace w1 = trace w @ ev1" "\<forall>ev \<in> set ev1. is_poll_event (x # xs) ev"
      "instance_state_name e (clock w) x = ''terminated'' \<longrightarrow> Reload x ''terminated'' \<in> set ev1"
    by (auto simp: poll_one_eq split: if_splits)
  from Cons.IH[OF r] obtain evs where evs: "trace w' = trace w1 @ evs"
      "\<forall>ev \<in> set evs. is_poll_event xs ev"
      "\<forall>i \<in> set xs. instance_state_name e (clock w1) i = ''terminated''
               \<longrightarrow> Reload i ''terminated'' \<in> set evs"
    by blast
  have "\<forall>ev \<in> set evs. is_poll_event (x # xs) ev"
    using evs(2) by (auto intro: is_poll_event_mono)
  then have "trace w' = trace w @ (ev1 @ evs) \<and> (\<forall>ev \<in> set (ev1 @ evs). is_poll_event (x # xs) ev)
        \<and> (\<forall>i \<in> set (x # xs). instance_state_name e (clock w) i = ''terminated''
               \<longrightarrow> Reload i ''terminated'' \<in> set (ev1 @ evs))"
    using ev1 evs c by auto
  then show ?case by blast
qed

lemma poll_fold_values:
  "fold (poll_one e p) xs (w, mon) = (w', mon') \<Longrightarrow>
     value_at w' p k = value_at w p k \<or> (k \<in> set xs \<and> value_at w' p k = Some ''terminated'')"
proof (induction xs arbitrary: w mon)
  case Nil
  then show ?case by simp
next
  case (Cons x xs)
  obtain w1 mon1 where s: "poll_one e p x (w, mon) = (w1, mon1)"
    by (cases "poll_one e p x (w, mon)")
  then have r: "fold (poll_one e p) xs (w1, mon1) = (w', mon')" using Cons.prems by simp
  have v: "value_at w1 p k = value_at w p k \<or> (k = x \<and> value_at w1 p k = Some ''terminated'')"
    using s by (auto simp: poll_one_eq split: if_splits)
  from Cons.IH[OF r] v show ?case by auto
qed

lemma poll_fold_terminated:
  "fold (poll_one e p) xs (w, mon) = (w', mon') \<Longrightarrow> i \<in> set xs \<Longrightarrow>
     instance_state_name e (clock w) i = ''terminated'' \<Longrightarrow> value_at w' p i = Some ''terminated''"
proof (induction xs arbitrary: w mon)
  case Nil
  then show ?case by simp
next
  case (Cons x xs)
  obtain w1 mon1 where s: "poll_one e p x (w, mon) = (w1, mon1)"
    by (cases "poll_one e p x (w, mon)")
  then have r: "fold (poll_one e p) xs (w1, mon1) = (w', mon')" using Cons.prems by simp
  have c: "clock w1 = clock w" using s by (auto simp: poll_one_eq split: if_splits)
  show ?case
  proof (cases "i \<in> set xs")
    case True
    from Cons.IH[OF r True] Cons.prems c show ?thesis by simp
  next
    case False
    then have "i = x" using Cons.prems by simp
    then have "value_at w1 p i = Some ''terminated''"
      using s Cons.prems by (auto simp: poll_one_eq split: if_splits)
    with poll_fold_values[OF r, where k = i] False show ?thesis by auto
  qed
qed


text \<open>The polling loop.\<close>

lemma monitor_loop_Nil [simp]: "monitor_loop fuel e p [] w = (Returned (), w)"
  by (simp add: monitor_loop.simps)

lemma monitor_loop_0: "mon \<noteq> [] \<Longrightarrow> monitor_loop 0 e p mon w = (Running, w)"
  by (simp add: monitor_loop.simps)

lemma monitor_loop_Suc:
  "mon \<noteq> [] \<Longrightarrow> monitor_loop (Suc f) e p mon w =
     (case poll_round e p mon (sleep w) of (w1, mon1) \<Rightarrow> monitor_loop f e p mon1 w1)"
  by (simp add: monitor_loop.simps)

lemma poll_round_cases:
  obtains w1 mon1 where "poll_round e p mon (sleep w) = (w1, mon1)"
    and "fold (poll_one e p) mon (sleep w, mon) = (w1, mon1)"
  by (cases "poll_round e p mon (sleep w)") (simp add: poll_round_def)

lemma monitor_loop_keys:
  "monitor_loop fuel e p mon w = (r, w') \<Longrightarrow> set mon \<subseteq> set (keys_at w p)
     \<Longrightarrow> keys_at w' p = keys_at w p"
proof (induction fuel arbitrary: mon w)
  case 0
  then show ?case by (cases "mon = []") (simp_all add: monitor_loop_0)
next
  case (Suc f)
  show ?case
  proof (cases "mon = []")
    case True
    with Suc.prems show ?thesis by simp
  next
    case False
    obtain w1 mon1 where pr: "poll_round e p mon (sleep w) = (w1, mon1)"
      and fo: "fold (poll_one e p) mon (sleep w, mon) = (w1, mon1)"
      by (rule poll_round_cases)
    have k1: "keys_at w1 p = keys_at w p"
      using poll_fold_keys[OF fo] Suc.prems(2) by simp
    have m1: "set mon1 \<subseteq> set mon" using poll_fold_mon[OF fo] by auto
    have "monitor_loop f e p mon1 w1 = (r, w')"
      using Suc.prems(1) False pr by (simp add: monitor_loop_Suc)
    from Suc.IH[OF this] m1 k1 Suc.prems(2) show ?thesis by auto
  qed
qed

lemma monitor_loop_files:
  "monitor_loop fuel e p mon w = (r, w') \<Longrightarrow> q \<noteq> p \<Longrightarrow> files w' q = files w q"
proof (induction fuel arbitrary: mon w)
  case 0
  then show ?case by (cases "mon = []") (simp_all add: monitor_loop_0)
next
  case (Suc f)
  show ?case
  proof (cases "mon = []")
    case True
    with Suc.prems show ?thesis by simp
  next
    case False
    obtain w1 mon1 where pr: "poll_round e p mon (sleep w) = (w1, mon1)"
      and fo: "fold (poll_one e p) mon (sleep w, mon) = (w1, mon1)"
      by (rule poll_round_cases)
    have "monitor_loop f e p mon1 w1 = (r, w')"
      using Suc.prems(1) False pr by (simp add: monitor_loop_Suc)
    from Suc.IH[OF this Suc.prems(2)] poll_fold_files[OF fo Suc.prems(2)] show ?thesis by simp
  qed
qed

lemma monitor_loop_clock:
  "monitor_loop fuel e p mon w = (r, w') \<Longrightarrow> clock w \<le> clock w'"
proof (induction fuel arbitrary: mon w)
  case 0
  then show ?case by (cases "mon = []") (simp_all add: monitor_loop_0)
next
  case (Suc f)
  show ?case
  proof (cases "mon = []")
    case True
    with Suc.prems show ?thesis by simp
  next
    case False
    obtain w1 mon1 where pr: "poll_round e p mon (sleep w) = (w1, mon1)"
      and fo: "fold (poll_one e p) mon (sleep w, mon) = (w1, mon1)"
      by (rule poll_round_cases)
    have "monitor_loop f e p mon1 w1 = (r, w')"
      using Suc.prems(1) False pr by (simp add: monitor_loop_Suc)
    from Suc.IH[OF this] poll_fold_clock[OF fo] show ?thesis by simp
  qed
qed

lemma monitor_loop_not_raised:
  "monitor_loop fuel e p mon w = (r, w') \<Longrightarrow> r = Returned () \<or> r = Running"
proof (induction fuel arbitrary: mon w)
  case 0
  then show ?case by (cases "mon = []") (auto simp: monitor_loop_0)
next
  case (Suc f)
  show ?case
  proof (cases "mon = []")
    case True
    with Suc.prems show ?thesis by simp
  next
    case False
    obtain w1 mon1 where pr: "poll_round e p mon (sleep w) = (w1, mon1)"
      and fo: "fold (poll_one e p) mon (sleep w, mon) = (w1, mon1)"
      by (rule poll_round_cases)
    have "monitor_loop f e p mon1 w1 = (r, w')"
      using Suc.prems(1) False pr by (simp add: monitor_loop_Suc)
    from Suc.IH[OF this] show ?thesis .
  qed
qed

lemma monitor_loop_trace:
  "monitor_loop fuel e p mon w = (r, w') \<Longrightarrow>
     \<exists>evs. trace w' = trace w @ evs \<and> (\<forall>ev \<in> set evs. is_poll_event mon ev)
        \<and> (r = Returned () \<longrightarrow> (\<forall>i \<in> set mon. Reload i ''terminated'' \<in> set evs))"
proof (induction fuel arbitrary: mon w)
  case 0
  then show ?case by (cases "mon = []") (auto simp: monitor_loop_0)
next
  case (Suc f)
  show ?case
  proof (cases "mon = []")
    case True
    with Suc.prems show ?thesis by simp
  next
    case False
    obtain w1 mon1 where pr: "poll_round e p mon (sleep w) = (w1, mon1)"
      and fo: "fold (poll_one e p) mon (sleep w, mon) = (w1, mon1)"
      by (rule poll_round_cases)
    have m1: "mon1 = filter (\<lambda>i. \<not> (i \<in> set mon \<and> instance_state_name e (clock (sleep w)) i = ''terminated'')) mon"
      using poll_fold_mon[OF fo] .
    from poll_fold_trace[OF fo] obtain ev1 where ev1: "trace w1 = trace w @ Sleep # ev1"
       "\<forall>ev \<in> set ev1. is_poll_event mon ev"
       "\<forall>i \<in> set mon. instance_state_name e (clock (sleep w)) i = ''terminated''
               \<longrightarrow> Reload i ''terminated'' \<in> set ev1"
      by auto
    have "monitor_loop f e p mon1 w1 = (r, w')"
      using Suc.prems(1) False pr by (simp add: monitor_loop_Suc)
    from Suc.IH[OF this] obtain ev2 where ev2: "trace w' = trace w1 @ ev2"
       "\<forall>ev \<in> set ev2. is_poll_event mon1 ev"
       "r = Returned () \<longrightarrow> (\<forall>i \<in> set mon1. Reload i ''terminated'' \<in> set ev2)"
      by blast
    have sub: "set mon1 \<subseteq> set mon" using m1 by auto
    have a: "trace w' = trace w @ (Sleep # ev1 @ ev2)" using ev1 ev2 by simp
    have b: "\<forall>ev \<in> set (Sleep # ev1 @ ev2). is_poll_event mon ev"
      using ev1(2) ev2(2) sub by (auto intro: is_poll_event_mono)
    have c: "r = Returned () \<longrightarrow> (\<forall>i \<in> set mon. Reload i ''terminated'' \<in> set (Sleep # ev1 @ ev2))"
    proof (intro impI ballI)
      fix i assume r: "r = Returned ()" and i: "i \<in> set mon"
      show "Reload i ''terminated'' \<in> set (Sleep # ev1 @ ev2)"
      proof (cases "i \<in> set mon1")
        case True
        with ev2(3) r show ?thesis by simp
      next
        case False
        with m1 i have "instance_state_name e (clock (sleep w)) i = ''terminated''" by auto
        with ev1(3) i show ?thesis by simp
      qed
    qed
    from a b c show ?thesis by blast
  qed
qed

lemma monitor_loop_values:
  "monitor_loop fuel e p mon w = (r, w') \<Longrightarrow>
     value_at w' p k = value_at w p k \<or> (k \<in> set mon \<and> value_at w' p k = Some ''terminated'')"
proof (induction fuel arbitrary: mon w)
  case 0
  then show ?case by (cases "mon = []") (auto simp: monitor_loop_0)
next
  case (Suc f)
  show ?case
  proof (cases "mon = []")
    case True
    with Suc.prems show ?thesis by simp
  next
    case False
    obtain w1 mon1 where pr: "poll_round e p mon (sleep w) = (w1, mon1)"
      and fo: "fold (poll_one e p) mon (sleep w, mon) = (w1, mon1)"
      by (rule poll_round_cases)
    have sub: "set mon1 \<subseteq> set mon" using poll_fold_mon[OF fo] by auto
    have "monitor_loop f e p mon1 w1 = (r, w')"
      using Suc.prems(1) False pr by (simp add: monitor_loop_Suc)
    from Suc.IH[OF this] poll_fold_values[OF fo, where k = k] sub show ?thesis by auto
  qed
qed

lemma monitor_loop_terminated:
  "monitor_loop fuel e p mon w = (Returned (), w') \<Longrightarrow> i \<in> set mon
     \<Longrightarrow> value_at w' p i = Some ''terminated''"
proof (induction fuel arbitrary: mon w)
  case 0
  then show ?case by (cases "mon = []") (auto simp: monitor_loop_0)
next
  case (Suc f)
  then have ne: "mon \<noteq> []" by auto
  obtain w1 mon1 where pr: "poll_round e p mon (sleep w) = (w1, mon1)"
    and fo: "fold (poll_one e p) mon (sleep w, mon) = (w1, mon1)"
    by (rule poll_round_cases)
  have m1: "mon1 = filter (\<lambda>i. \<not> (i \<in> set mon \<and> instance_state_name e (clock (sleep w)) i = ''terminated'')) mon"
    using poll_fold_mon[OF fo] .
  have ml: "monitor_loop f e p mon1 w1 = (Returned (), w')"
    using Suc.prems(1) ne pr by (simp add: monitor_loop_Suc)
  show ?case
  proof (cases "i \<in> set mon1")
    case True
    from Suc.IH[OF ml True] show ?thesis .
  next
    case False
    with m1 Suc.prems(2) have "instance_state_name e (clock (sleep w)) i = ''terminated''" by auto
    from poll_fold_terminated[OF fo Suc.prems(2) this]
    have "value_at w1 p i = Some ''terminated''" .
    with monitor_loop_values[OF ml, where k = i] show ?thesis by auto
  qed
qed

subsection \<open>The batch loop\<close>

lemma execute_loop_done:
  "\<not> i < tot \<Longrightarrow> execute_loop fuel e p b tot i w = (Returned (), w)"
  by (simp add: execute_loop.simps)

lemma execute_loop_0:
  "i < tot \<Longrightarrow> execute_loop 0 e p b tot i w = (Running, w)"
  by (simp add: execute_loop.simps)

lemma execute_loop_Suc:
  "i < tot \<Longrightarrow> execute_loop (Suc f) e p b tot i w =
     (case monitor_instance_termination f e p (removal_slice w p i b)
             (triggered (removal_slice w p i b) w) of
        (Returned u, w3) \<Rightarrow> execute_loop f e p b tot (i + b) w3
      | (r, w3) \<Rightarrow> (r, w3))"
  by (simp add: execute_loop.simps[of "Suc f"] removal_slice_def triggered_def keys_at_def Let_def)

lemma execute_loop_rule:
  assumes run: "execute_loop fuel e p b tot i w = (r, w')"
    and inv: "I i w"
    and step: "\<And>f i w r3 w3. i < tot \<Longrightarrow> I i w \<Longrightarrow>
        monitor_instance_termination f e p (removal_slice w p i b)
          (triggered (removal_slice w p i b) w) = (r3, w3) \<Longrightarrow>
        (if r3 = Returned () then I (i + b) w3 else R r3 w3)"
    and fin: "\<And>i w. \<not> i < tot \<Longrightarrow> I i w \<Longrightarrow> R (Returned ()) w"
    and out: "\<And>i w. i < tot \<Longrightarrow> I i w \<Longrightarrow> R Running w"
  shows "R r w'"
  using run inv
proof (induction fuel arbitrary: i w)
  case 0
  then show ?case
    by (cases "i < tot") (auto simp: execute_loop_0 execute_loop_done intro: fin out)
next
  case (Suc f)
  show ?case
  proof (cases "i < tot")
    case False
    with Suc.prems show ?thesis by (auto simp: execute_loop_done intro: fin)
  next
    case True
    obtain r3 w3 where m: "monitor_instance_termination f e p (removal_slice w p i b)
          (triggered (removal_slice w p i b) w) = (r3, w3)"
      by (cases "monitor_instance_termination f e p (removal_slice w p i b)
          (triggered (removal_slice w p i b) w)")
    note s = step[OF True Suc.prems(2) m]
    show ?thesis
    proof (cases "r3 = Returned ()")
      case True
      with s have i3: "I (i + b) w3" by simp
      have "execute_loop f e p b tot (i + b) w3 = (r, w')"
        using Suc.prems(1) \<open>i < tot\<close> m True by (simp add: execute_loop_Suc)
      from Suc.IH[OF this i3] show ?thesis .
    next
      case False
      with s have "R r3 w3" by simp
      moreover have "(r, w') = (r3, w3)"
        using Suc.prems(1) \<open>i < tot\<close> m False
        by (cases r3) (auto simp: execute_loop_Suc)
      ultimately show ?thesis by simp
    qed
  qed
qed

lemma triggered_simps [simp]:
  "trace (triggered xs w) = trace w @ DebugRemovalList xs # map SetUnhealthy xs"
  "files (triggered xs w) = files w"
  "clock (triggered xs w) = clock w"
  "keys_at (triggered xs w) p = keys_at w p"
  "value_at (triggered xs w) p = value_at w p"
  by (simp_all add: triggered_def)

lemma set_py_slice: "set (py_slice xs lo hi) \<subseteq> set xs"
  by (auto simp: py_slice_def Let_def dest!: in_set_takeD in_set_dropD)

lemma removal_slice_subset: "set (removal_slice w p i b) \<subseteq> set (keys_at w p)"
  by (simp add: removal_slice_def set_py_slice)

lemma distinct_py_slice: "distinct xs \<Longrightarrow> distinct (py_slice xs lo hi)"
  by (simp add: py_slice_def Let_def)

lemma py_slice_nonneg:
  "0 \<le> lo \<Longrightarrow> lo \<le> hi \<Longrightarrow> py_slice xs lo hi = take (nat (hi - lo)) (drop (nat lo) xs)"
  by (auto simp: py_slice_def py_bound_def Let_def min_def)


lemma monitor_keys:
  "monitor_instance_termination f e p xs w = (r, w') \<Longrightarrow> set xs \<subseteq> set (keys_at w p)
     \<Longrightarrow> keys_at w' p = keys_at w p"
  using monitor_loop_keys[of f e p "dict_keys xs" w r w']
  by (simp add: monitor_instance_termination_def)

lemma monitor_not_raised:
  "monitor_instance_termination f e p xs w = (r, w') \<Longrightarrow> r = Returned () \<or> r = Running"
  using monitor_loop_not_raised[of f e p "dict_keys xs" w r w']
  by (simp add: monitor_instance_termination_def)

lemma is_poll_event_dict_keys [simp]: "is_poll_event (dict_keys xs) ev = is_poll_event xs ev"
  by (cases ev) simp_all

lemma monitor_trace:
  "monitor_instance_termination f e p xs w = (r, w') \<Longrightarrow>
     \<exists>evs. trace w' = trace w @ evs \<and> (\<forall>ev \<in> set evs. is_poll_event xs ev)
        \<and> (r = Returned () \<longrightarrow> (\<forall>i \<in> set xs. Reload i ''terminated'' \<in> set evs))"
  using monitor_loop_trace[of f e p "dict_keys xs" w r w']
  by (simp add: monitor_instance_termination_def)

lemma monitor_values:
  "monitor_instance_termination f e p xs w = (r, w') \<Longrightarrow>
     value_at w' p k = value_at w p k \<or> (k \<in> set xs \<and> value_at w' p k = Some ''terminated'')"
  using monitor_loop_values[of f e p "dict_keys xs" w r w' k]
  by (simp add: monitor_instance_termination_def)

lemma monitor_terminated:
  "monitor_instance_termination f e p xs w = (Returned (), w') \<Longrightarrow> i \<in> set xs
     \<Longrightarrow> value_at w' p i = Some ''terminated''"
  using monitor_loop_terminated[of f e p "dict_keys xs" w w' i]
  by (simp add: monitor_instance_termination_def)

lemma monitor_clock:
  "monitor_instance_termination f e p xs w = (r, w') \<Longrightarrow> clock w \<le> clock w'"
  using monitor_loop_clock[of f e p "dict_keys xs" w r w']
  by (simp add: monitor_instance_termination_def)

lemma monitor_files:
  "monitor_instance_termination f e p xs w = (r, w') \<Longrightarrow> q \<noteq> p \<Longrightarrow> files w' q = files w q"
  using monitor_loop_files[of f e p "dict_keys xs" w r w' q]
  by (simp add: monitor_instance_termination_def)

lemma execute_loop_keys:
  assumes "execute_loop fuel e p b tot i w = (r, w')"
  shows "keys_at w' p = keys_at w p"
proof (rule execute_loop_rule[OF assms, where I = "\<lambda>i w1. keys_at w1 p = keys_at w p"
        and R = "\<lambda>r w1. keys_at w1 p = keys_at w p"])
  fix f i w1 r3 w3
  assume k: "keys_at w1 p = keys_at w p"
    and m: "monitor_instance_termination f e p (removal_slice w1 p i b)
          (triggered (removal_slice w1 p i b) w1) = (r3, w3)"
  have "keys_at w3 p = keys_at w1 p"
    using monitor_keys[OF m] removal_slice_subset[of w1 p i b] by simp
  with k show "if r3 = Returned () then keys_at w3 p = keys_at w p else keys_at w3 p = keys_at w p"
    by simp
qed simp_all

lemma execute_loop_not_raised:
  assumes "execute_loop fuel e p b tot i w = (r, w')"
  shows "r = Returned () \<or> r = Running"
proof (rule execute_loop_rule[OF assms, where I = "\<lambda>i w1. True"
        and R = "\<lambda>r w1. r = Returned () \<or> r = Running"])
  fix f i w1 r3 w3
  assume m: "monitor_instance_termination f e p (removal_slice w1 p i b)
          (triggered (removal_slice w1 p i b) w1) = (r3, w3)"
  from monitor_not_raised[OF m]
  show "if r3 = Returned () then True else r3 = Returned () \<or> r3 = Running" by auto
qed simp_all

subsection \<open>The snapshot\<close>

lemma shelve_open_simps [simp]:
  "trace (shelve_open p w) = trace w @ [ShelveOpen p]"
  "clock (shelve_open p w) = clock w"
  "files (shelve_open p w) = (files w)(p \<mapsto> shelf_at w p)"
  by (simp_all add: shelve_open_def)

lemma shelf_at_shelve_open [simp]: "shelf_at (shelve_open p w) p = shelf_at w p"
  by (simp add: shelf_at_def)

lemma shelf_at_emit [simp]: "shelf_at (emit ev w) p = shelf_at w p"
  by (simp add: shelf_at_def)

lemma new_instance_state_not_found:
  "describe_auto_scaling_groups e g = [] \<Longrightarrow>
   new_instance_state e g p w =
     (Raised (SystemExit 1),
      emit (LogError (''AutoScaling group '' @ g @ '' not found!''))
        (emit (DescribeGroups g) (shelve_open p w)))"
  by (simp add: new_instance_state_def query_asg_def)

lemma new_instance_state_found:
  "describe_auto_scaling_groups e g = [grp] \<Longrightarrow>
   new_instance_state e g p w =
     (Returned (),
      fold (\<lambda>i. store_set p (InstanceId i) ''pending_replacement'') (Instances grp)
        (emit (DescribeGroups g) (shelve_open p w)))"
  by (simp add: new_instance_state_def query_asg_def)

lemma new_instance_state_ambiguous:
  "1 < length (describe_auto_scaling_groups e g) \<Longrightarrow>
   new_instance_state e g p w = (Raised TypeError, emit (DescribeGroups g) (shelve_open p w))"
  by (cases "describe_auto_scaling_groups e g") (simp_all add: new_instance_state_def query_asg_def)

lemma main_not_found:
  "describe_auto_scaling_groups e (group a) = [] \<Longrightarrow>
   main fuel e a w =
     (Raised (SystemExit 1),
      emit (LogError (''AutoScaling group '' @ group a @ '' not found!''))
        (emit (DescribeGroups (group a)) (shelve_open (state a) w)))"
  by (simp add: main_def execute_def new_instance_state_not_found)

subsection \<open>The group is not found\<close>

text \<open>
  Claim C7. When \<^verbatim>\<open>describe_auto_scaling_groups\<close> returns no group for the target
  name, the run ends in \<^verbatim>\<open>SystemExit(1)\<close>: the process exits with status 1, the
  error line \<^verbatim>\<open>AutoScaling group <name> not found!\<close> has been logged, and no
  \<^verbatim>\<open>set_instance_health\<close> call was made.
\<close>

theorem group_not_found_exits:
  assumes "describe_auto_scaling_groups e (group a) = []"
  shows "fst (main fuel e a (boot fs)) = Raised (SystemExit 1)
       \<and> exit_status (fst (main fuel e a (boot fs))) = Some 1
       \<and> LogError (''AutoScaling group '' @ group a @ '' not found!'')
            \<in> set (trace (snd (main fuel e a (boot fs))))
       \<and> (\<forall>i. SetUnhealthy i \<notin> set (trace (snd (main fuel e a (boot fs)))))"
  using assms by (auto simp: main_not_found boot_def)

theorem group_not_found_exits_witness:
  "describe_auto_scaling_groups env_none (group (parse_args None ''web'' ''eu-west-1'' None)) = []
   \<and> fst (main 0 env_none (parse_args None ''web'' ''eu-west-1'' None) (boot (\<lambda>p. None)))
       = Raised (SystemExit 1)
   \<and> exit_status (fst (main 0 env_none (parse_args None ''web'' ''eu-west-1'' None) (boot (\<lambda>p. None))))
       = Some 1
   \<and> LogError ''AutoScaling group web not found!''
       \<in> set (trace (snd (main 0 env_none (parse_args None ''web'' ''eu-west-1'' None) (boot (\<lambda>p. None)))))
   \<and> (\<forall>i. SetUnhealthy i \<notin> set (trace (snd (main 0 env_none (parse_args None ''web'' ''eu-west-1'' None) (boot (\<lambda>p. None))))))"
  using group_not_found_exits[of env_none "parse_args None ''web'' ''eu-west-1'' None" 0 "\<lambda>p. None"]
  by (simp add: env_none_def parse_args_def)

subsection \<open>An ambiguous group, and the write that is not synced\<close>

text \<open>
  Claim C6. Two groups for the target name: \<^verbatim>\<open>query_asg\<close> has no branch for this
  and returns \<^verbatim>\<open>None\<close>, so the run ends in an uncaught \<^verbatim>\<open>TypeError\<close> raised by
  \<^verbatim>\<open>new_instance_state\<close>. Nothing is logged as an error, where the sibling branch
  for no group logs and exits.
\<close>

theorem ambiguous_group_unreported:
  "fst (main 1 env_two (parse_args None ''web'' ''eu-west-1'' None) (boot (\<lambda>p. None)))
     = Raised TypeError
   \<and> trace (snd (main 1 env_two (parse_args None ''web'' ''eu-west-1'' None) (boot (\<lambda>p. None))))
     = [ShelveOpen ''web.state'', DescribeGroups ''web'']"
  by (simp add: main_def execute_def new_instance_state_ambiguous env_two_def parse_args_def
      boot_def)

text \<open>
  Claim C4. \<^verbatim>\<open>update_state\<close> writes the value and calls \<^verbatim>\<open>sync()\<close>, but the
  polling loop does not call it: it assigns \<^verbatim>\<open>self.inventory.state[i]\<close> itself.
  In the run below the instance is seen terminated and written, and no
  \<^verbatim>\<open>sync()\<close> follows.
\<close>

theorem termination_recorded_without_sync:
  "trace (snd (execute 2 env_one ''web'' 1 ''web.state'' (boot (\<lambda>p. None))))
     = [ShelveOpen ''web.state'', DescribeGroups ''web'',
        StoreSet ''i-1'' ''pending_replacement'', DebugRemovalList [''i-1''],
        SetUnhealthy ''i-1'', Sleep, Reload ''i-1'' ''terminated'',
        StoreSet ''i-1'' ''terminated'']
   \<and> fst (execute 2 env_one ''web'' 1 ''web.state'' (boot (\<lambda>p. None))) = Returned ()
   \<and> trace (update_state ''web.state'' ''i-1'' ''terminated'' (boot (\<lambda>p. None)))
     = [StoreSet ''i-1'' ''terminated'', StoreSync]"
  by code_simp

subsection \<open>Batches and traces\<close>

lemma removal_lists_simps [simp]:
  "removal_lists [] = []"
  "removal_lists (tr @ tr') = removal_lists tr @ removal_lists tr'"
  "removal_lists (DebugRemovalList xs # tr) = xs # removal_lists tr"
  "removal_lists (SetUnhealthy i # tr) = removal_lists tr"
  "removal_lists (ShelveOpen q # tr) = removal_lists tr"
  "removal_lists (DescribeGroups q # tr) = removal_lists tr"
  "removal_lists (StoreSet k v # tr) = removal_lists tr"
  "removal_lists (map SetUnhealthy ys) = []"
  by (simp_all add: removal_lists_def o_def)

lemma triggers_simps [simp]:
  "triggers [] = []"
  "triggers (tr @ tr') = triggers tr @ triggers tr'"
  "triggers (DebugRemovalList xs # tr) = triggers tr"
  "triggers (SetUnhealthy i # tr) = i # triggers tr"
  "triggers (ShelveOpen q # tr) = triggers tr"
  "triggers (DescribeGroups q # tr) = triggers tr"
  "triggers (StoreSet k v # tr) = triggers tr"
  by (simp_all add: triggers_def)

lemma triggers_map [simp]: "triggers (map SetUnhealthy ys) = ys"
  by (induction ys) simp_all

lemma triggers_map_StoreSet [simp]: "triggers (map (\<lambda>x. StoreSet (f x) v) ys) = []"
  by (induction ys) simp_all

lemma removal_lists_map_StoreSet [simp]: "removal_lists (map (\<lambda>x. StoreSet (f x) v) ys) = []"
  by (induction ys) simp_all

lemma poll_events_quiet:
  "\<forall>ev \<in> set evs. is_poll_event xs ev \<Longrightarrow> removal_lists evs = [] \<and> triggers evs = []"
proof (induction evs)
  case Nil
  then show ?case by simp
next
  case (Cons ev evs)
  then show ?case by (cases ev) (simp_all add: removal_lists_def triggers_def)
qed

lemma triggers_in_set: "i \<in> set (triggers tr) \<longleftrightarrow> SetUnhealthy i \<in> set tr"
proof (induction tr)
  case Nil
  then show ?case by simp
next
  case (Cons ev tr)
  then show ?case by (cases ev) (auto simp: triggers_def)
qed

lemma py_slice_batch:
  assumes "0 < b"
  shows "py_slice ks (int m * b) (int m * b + b) = batch_of ks (nat b) m"
proof -
  have "py_slice ks (int m * b) (int m * b + b)
      = take (nat (int m * b + b - int m * b)) (drop (nat (int m * b)) ks)"
    using assms by (intro py_slice_nonneg) simp_all
  moreover have "nat (int m * b) = m * nat b"
    by (simp add: nat_mult_distrib)
  ultimately show ?thesis by (simp add: batch_of_def)
qed

lemma take_batch: "take (m * b + b) ks = take (m * b) ks @ batch_of ks b m"
  unfolding batch_of_def by (rule take_add)

lemma batch_of_mem:
  "i \<in> set (batch_of ks b k) \<longleftrightarrow> (\<exists>n. n < length ks \<and> k * b \<le> n \<and> n < k * b + b \<and> ks ! n = i)"
proof
  assume "i \<in> set (batch_of ks b k)"
  then obtain j where j: "j < length (batch_of ks b k)" "batch_of ks b k ! j = i"
    by (auto simp: in_set_conv_nth)
  then have "j < b" "k * b + j < length ks" by (auto simp: batch_of_def)
  moreover from j this have "ks ! (k * b + j) = i" by (simp add: batch_of_def)
  ultimately show "\<exists>n. n < length ks \<and> k * b \<le> n \<and> n < k * b + b \<and> ks ! n = i"
    by (intro exI[of _ "k * b + j"]) simp
next
  assume "\<exists>n. n < length ks \<and> k * b \<le> n \<and> n < k * b + b \<and> ks ! n = i"
  then obtain n where n: "n < length ks" "k * b \<le> n" "n < k * b + b" "ks ! n = i" by blast
  then have "n - k * b < length (batch_of ks b k)" by (auto simp: batch_of_def)
  moreover have "batch_of ks b k ! (n - k * b) = i" using n by (simp add: batch_of_def)
  ultimately show "i \<in> set (batch_of ks b k)" by (metis nth_mem)
qed

lemma batch_of_subset: "set (batch_of ks b k) \<subseteq> set ks"
  by (auto simp: batch_of_def dest!: in_set_takeD in_set_dropD)

lemma batch_index_unique:
  fixes n :: nat
  assumes "k * b \<le> n" "n < k * b + b" "k' * b \<le> n" "n < k' * b + b"
  shows "k = k'"
proof (rule ccontr)
  assume "k \<noteq> k'"
  then consider "k < k'" | "k' < k" by linarith
  then show False
  proof cases
    case 1
    then have "Suc k \<le> k'" by simp
    then have "Suc k * b \<le> k' * b" by (rule mult_le_mono1)
    with assms show False by simp
  next
    case 2
    then have "Suc k' \<le> k" by simp
    then have "Suc k' * b \<le> k * b" by (rule mult_le_mono1)
    with assms show False by simp
  qed
qed

lemma batches_disjoint:
  assumes "distinct ks" "i \<in> set (batch_of ks b k)" "i \<in> set (batch_of ks b k')"
  shows "k = k'"
proof -
  from assms(2) obtain n where n: "n < length ks" "k * b \<le> n" "n < k * b + b" "ks ! n = i"
    by (auto simp: batch_of_mem)
  from assms(3) obtain n' where n': "n' < length ks" "k' * b \<le> n'" "n' < k' * b + b" "ks ! n' = i"
    by (auto simp: batch_of_mem)
  have "n = n'" using nth_eq_iff_index_eq[OF assms(1) n(1) n'(1)] n(4) n'(4) by simp
  with n n' show ?thesis by (auto intro: batch_index_unique)
qed

lemma ceil_div_unique:
  fixes m b N :: nat
  assumes "0 < b" "N \<le> m * b" "m = 0 \<or> (m - 1) * b < N"
  shows "m = (N + b - 1) div b"
proof (cases m)
  case 0
  with assms show ?thesis by simp
next
  case (Suc m')
  with assms have lo: "m' * b < N" and hi: "N \<le> m' * b + b" by simp_all
  have "(N + b - 1) div b = Suc m'"
  proof (rule div_nat_eqI)
    show "b * Suc m' \<le> N + b - 1" using lo assms(1) by (simp add: mult.commute)
    show "N + b - 1 < b * Suc (Suc m')" using hi assms(1) by (simp add: mult.commute)
  qed
  with Suc show ?thesis by simp
qed

subsection \<open>From the snapshot into the loop\<close>

lemma fold_store_set_trace [simp]:
  "trace (fold (\<lambda>i. store_set p (f i) v) xs w) = trace w @ map (\<lambda>i. StoreSet (f i) v) xs"
  by (induction xs arbitrary: w) simp_all

lemma fold_store_set_clock [simp]:
  "clock (fold (\<lambda>i. store_set p (f i) v) xs w) = clock w"
  by (induction xs arbitrary: w) simp_all

lemma fold_store_set_values:
  "value_at (fold (\<lambda>i. store_set p (f i) v) xs w) p k =
     (if k \<in> f ` set xs then Some v else value_at w p k)"
  by (induction xs arbitrary: w) auto

lemma fold_store_set_keys:
  "set (keys_at (fold (\<lambda>i. store_set p (f i) v) xs w) p) = set (keys_at w p) \<union> f ` set xs"
  by (induction xs arbitrary: w) (auto simp: keys_at_store_set)

lemma shelve_open_reads [simp]:
  "keys_at (shelve_open p w) p = keys_at w p" "value_at (shelve_open p w) p = value_at w p"
  by (simp_all add: keys_at_def value_at_def)

lemma boot_reads:
  "keys_at (boot fs) p = (case fs p of None \<Rightarrow> [] | Some s \<Rightarrow> shelf_keys s)"
  "value_at (boot fs) p k = (case fs p of None \<Rightarrow> None | Some s \<Rightarrow> DAList.lookup s k)"
  by (simp_all add: keys_at_def value_at_def shelf_at_def boot_def split: option.splits)

lemma snapshot_found:
  "describe_auto_scaling_groups e g = [grp] \<Longrightarrow>
   snapshot e g p fs =
     fold (\<lambda>i. store_set p (InstanceId i) ''pending_replacement'') (Instances grp)
       (emit (DescribeGroups g) (shelve_open p (boot fs)))"
  by (simp add: snapshot_def new_instance_state_found)

lemma snapshot_trace:
  "describe_auto_scaling_groups e g = [grp] \<Longrightarrow>
   trace (snapshot e g p fs) =
     ShelveOpen p # DescribeGroups g #
       map (\<lambda>i. StoreSet (InstanceId i) ''pending_replacement'') (Instances grp)"
  by (simp add: snapshot_found boot_def)

lemma snapshot_quiet:
  "describe_auto_scaling_groups e g = [grp] \<Longrightarrow>
   triggers (trace (snapshot e g p fs)) = [] \<and> removal_lists (trace (snapshot e g p fs)) = []"
  by (simp add: snapshot_trace)

lemma snapshot_values:
  "describe_auto_scaling_groups e g = [grp] \<Longrightarrow>
   value_at (snapshot e g p fs) p k =
     (if k \<in> InstanceId ` set (Instances grp) then Some ''pending_replacement''
      else (case fs p of None \<Rightarrow> None | Some s \<Rightarrow> DAList.lookup s k))"
  by (simp add: snapshot_found fold_store_set_values boot_reads)

lemma snapshot_keys:
  "describe_auto_scaling_groups e g = [grp] \<Longrightarrow>
   set (keys_at (snapshot e g p fs) p) =
     (case fs p of None \<Rightarrow> {} | Some s \<Rightarrow> set (shelf_keys s)) \<union> InstanceId ` set (Instances grp)"
  by (simp add: snapshot_found fold_store_set_keys boot_reads split: option.splits)

lemma execute_found:
  "describe_auto_scaling_groups e g = [grp] \<Longrightarrow>
   execute fuel e g b p (boot fs) =
     execute_loop fuel e p b (int (length (keys_at (snapshot e g p fs) p))) 0 (snapshot e g p fs)"
  by (simp add: execute_def snapshot_def new_instance_state_found keys_at_def)

subsection \<open>The batches of a run\<close>

lemma monitor_after_trigger:
  assumes "monitor_instance_termination f e p xs (triggered xs w) = (r, w')"
  shows "\<exists>evs. trace w' = trace w @ DebugRemovalList xs # map SetUnhealthy xs @ evs
           \<and> (\<forall>ev \<in> set evs. is_poll_event xs ev)
           \<and> (r = Returned () \<longrightarrow> (\<forall>i \<in> set xs. Reload i ''terminated'' \<in> set evs))"
  using monitor_trace[OF assms] by auto

lemma execute_loop_batches:
  assumes run: "execute_loop fuel e p b tot 0 w = (r, w')"
    and b: "0 < b" and tot: "tot = int (length (keys_at w p))"
  shows "\<exists>m. (r = Returned () \<longrightarrow> length (keys_at w p) \<le> m * nat b)
           \<and> (m = 0 \<or> (m - 1) * nat b < length (keys_at w p))
           \<and> removal_lists (trace w') =
               removal_lists (trace w) @ map (batch_of (keys_at w p) (nat b)) [0..<m]
           \<and> triggers (trace w') = triggers (trace w) @ take (m * nat b) (keys_at w p)"
proof -
  define ks where "ks = keys_at w p"
  define nb where "nb = nat b"
  have nb: "int nb = b" "0 < nb" using b by (simp_all add: nb_def)
  define I where "I = (\<lambda>(i::int) (w1::world). keys_at w1 p = ks \<and>
     (\<exists>m. i = int m * b \<and> (m = 0 \<or> (m - 1) * nb < length ks)
        \<and> removal_lists (trace w1) = removal_lists (trace w) @ map (batch_of ks nb) [0..<m]
        \<and> triggers (trace w1) = triggers (trace w) @ take (m * nb) ks))"
  define R where "R = (\<lambda>(r::unit outcome) (w1::world). \<exists>m. (r = Returned () \<longrightarrow> length ks \<le> m * nb)
        \<and> (m = 0 \<or> (m - 1) * nb < length ks)
        \<and> removal_lists (trace w1) = removal_lists (trace w) @ map (batch_of ks nb) [0..<m]
        \<and> triggers (trace w1) = triggers (trace w) @ take (m * nb) ks)"
  have lt: "\<And>m. (int m * b < tot) = (m * nb < length ks)"
  proof -
    fix m
    have "int m * b = int (m * nb)" using nb by simp
    then show "(int m * b < tot) = (m * nb < length ks)"
      unfolding tot ks_def by (metis of_nat_less_iff)
  qed
  have "R r w'"
  proof (rule execute_loop_rule[OF run, where I = I and R = R])
    show "I 0 w" by (auto simp: I_def ks_def intro: exI[of _ 0])
  next
    fix i w1
    assume "\<not> i < tot" "I i w1"
    then show "R (Returned ()) w1" unfolding I_def R_def using lt by (metis not_less)
  next
    fix i w1
    assume "i < tot" "I i w1"
    then show "R Running w1" unfolding I_def R_def by auto
  next
    fix f i w1 r3 w3
    assume i: "i < tot" and inv: "I i w1"
      and m: "monitor_instance_termination f e p (removal_slice w1 p i b)
          (triggered (removal_slice w1 p i b) w1) = (r3, w3)"
    from inv obtain m0 where k1: "keys_at w1 p = ks" and i0: "i = int m0 * b"
      and lo: "m0 = 0 \<or> (m0 - 1) * nb < length ks"
      and rl: "removal_lists (trace w1) = removal_lists (trace w) @ map (batch_of ks nb) [0..<m0]"
      and tg: "triggers (trace w1) = triggers (trace w) @ take (m0 * nb) ks"
      unfolding I_def by blast
    have sl: "removal_slice w1 p i b = batch_of ks nb m0"
      unfolding removal_slice_def k1 i0 nb_def by (rule py_slice_batch[OF b])
    from monitor_after_trigger[OF m] obtain evs where
      tr: "trace w3 = trace w1 @ DebugRemovalList (batch_of ks nb m0)
             # map SetUnhealthy (batch_of ks nb m0) @ evs"
      and pe: "\<forall>ev \<in> set evs. is_poll_event (batch_of ks nb m0) ev"
      unfolding sl by blast
    from poll_events_quiet[OF pe] have q: "removal_lists evs = []" "triggers evs = []" by simp_all
    have k3: "keys_at w3 p = ks"
      using monitor_keys[OF m] removal_slice_subset[of w1 p i b] k1 by simp
    have m0: "m0 * nb < length ks" using i i0 lt by simp
    have rl3: "removal_lists (trace w3) =
        removal_lists (trace w) @ map (batch_of ks nb) [0..<Suc m0]"
      using tr rl q by simp
    have tg3: "triggers (trace w3) = triggers (trace w) @ take (Suc m0 * nb) ks"
      using tr tg q take_batch[of m0 nb ks] by (simp add: add.commute)
    have i3: "i + b = int (Suc m0) * b" using i0 by (simp add: algebra_simps)
    show "if r3 = Returned () then I (i + b) w3 else R r3 w3"
    proof (cases "r3 = Returned ()")
      case True
      have "I (i + b) w3" unfolding I_def using k3 i3 m0 rl3 tg3
        by (intro conjI exI[of _ "Suc m0"]) simp_all
      with True show ?thesis by simp
    next
      case False
      have "R r3 w3" unfolding R_def using False m0 rl3 tg3
        by (intro exI[of _ "Suc m0"]) simp
      with False show ?thesis by simp
    qed
  qed
  then show ?thesis unfolding R_def ks_def nb_def .
qed

lemma concat_batches: "concat (map (batch_of ks b) [0..<m]) = take (m * b) ks"
proof (induction m)
  case 0
  then show ?case by simp
next
  case (Suc m)
  then show ?case using take_batch[of m b ks] by (simp add: add.commute)
qed

lemma ceil_div_pos:
  fixes b N :: nat
  assumes "0 < b" "0 < N"
  shows "(N + b - 1) div b = Suc ((N - 1) div b)"
proof -
  have "N + b - 1 = (N - 1) + b" using assms by simp
  then have "(N + b - 1) div b = ((N - 1) + b) div b" by simp
  also have "\<dots> = Suc ((N - 1) div b)" using assms(1) by (simp add: div_if)
  finally show ?thesis .
qed

lemma last_batch_length:
  fixes b N :: nat
  assumes "0 < b" "0 < N"
  shows "N - ((N - 1) div b) * b = (if N mod b = 0 then b else N mod b)"
proof (cases "N mod b = 0")
  case True
  then obtain q where q: "N = q * b" by (metis mod_0_imp_dvd dvd_def mult.commute)
  with assms obtain q' where q': "q = Suc q'" by (cases q) simp_all
  obtain r where r: "b = Suc r" using assms(1) by (cases b) simp_all
  have "N - 1 = r + q' * b" using q q' r by simp
  moreover have "(r + q' * b) div b = q' + r div b"
    using assms(1) by (intro div_mult_self1) simp
  moreover have "r div b = 0" using r by simp
  ultimately have "(N - 1) div b = q'" by simp
  then show ?thesis using True q q' by simp
next
  case False
  have "(N - 1) div b = N div b"
    using assms False by (metis One_nat_def Suc_pred div_Suc)
  then show ?thesis using False by (simp add: minus_div_mult_eq_mod)
qed

subsection \<open>The partition into batches\<close>

lemma length_batch_of: "length (batch_of ks b k) = min b (length ks - k * b)"
  by (simp add: batch_of_def)

lemma run_loop:
  "describe_auto_scaling_groups e g = [grp] \<Longrightarrow>
   execute_loop fuel e p b (int (length (snapshot_keys e g p fs))) 0 (snapshot e g p fs)
     = (run_outcome fuel e g b p fs, run_world fuel e g b p fs)"
  by (simp add: run_outcome_def run_world_def execute_found snapshot_keys_def)

text \<open>
  Claim C2. With batch size \<open>B > 0\<close>, a run of \<^verbatim>\<open>execute\<close> that returns has cut the
  snapshot's keys, in their order, into \<open>\<lceil>N / B\<rceil>\<close> contiguous removal lists: list \<open>k\<close> is
  the slice of \<open>B\<close> keys from position \<open>k * B\<close>, every list but the last has \<open>B\<close>
  members, the last has \<open>N mod B\<close> members, or \<open>B\<close> when that is zero, and the removals
  triggered are the keys, each once, in order. With \<open>N = 0\<close> there is no removal list
  and no trigger.
\<close>

theorem execute_partitions_into_batches:
  assumes "describe_auto_scaling_groups e g = [grp]" and "0 < B"
    and "run_outcome fuel e g B p fs = Returned ()"
  shows "removal_lists (trace (run_world fuel e g B p fs)) =
           map (batch_of (snapshot_keys e g p fs) (nat B))
             [0..<ceil_div (length (snapshot_keys e g p fs)) (nat B)]
       \<and> length (removal_lists (trace (run_world fuel e g B p fs))) =
           ceil_div (length (snapshot_keys e g p fs)) (nat B)
       \<and> concat (removal_lists (trace (run_world fuel e g B p fs))) = snapshot_keys e g p fs
       \<and> (\<forall>k. Suc k < ceil_div (length (snapshot_keys e g p fs)) (nat B) \<longrightarrow>
             length (batch_of (snapshot_keys e g p fs) (nat B) k) = nat B)
       \<and> (0 < length (snapshot_keys e g p fs) \<longrightarrow>
             length (batch_of (snapshot_keys e g p fs) (nat B)
                (ceil_div (length (snapshot_keys e g p fs)) (nat B) - 1)) =
             (if length (snapshot_keys e g p fs) mod nat B = 0 then nat B
              else length (snapshot_keys e g p fs) mod nat B))
       \<and> triggers (trace (run_world fuel e g B p fs)) = snapshot_keys e g p fs
       \<and> (length (snapshot_keys e g p fs) = 0 \<longrightarrow>
             removal_lists (trace (run_world fuel e g B p fs)) = []
           \<and> triggers (trace (run_world fuel e g B p fs)) = [])"
proof -
  define ks where "ks = snapshot_keys e g p fs"
  define b where "b = nat B"
  define tr where "tr = trace (run_world fuel e g B p fs)"
  have b: "0 < b" using assms(2) by (simp add: b_def)
  have ks: "keys_at (snapshot e g p fs) p = ks" by (simp add: ks_def snapshot_keys_def)
  have run: "execute_loop fuel e p B (int (length (keys_at (snapshot e g p fs) p))) 0
      (snapshot e g p fs) = (Returned (), run_world fuel e g B p fs)"
    using run_loop[OF assms(1), of fuel p B fs] assms(3) by (simp add: snapshot_keys_def)
  from execute_loop_batches[OF run assms(2) refl] snapshot_quiet[OF assms(1), of p fs]
  obtain m where m: "length ks \<le> m * b" "m = 0 \<or> (m - 1) * b < length ks"
    and rl: "removal_lists tr = map (batch_of ks b) [0..<m]"
    and tg: "triggers tr = take (m * b) ks"
    unfolding ks b_def[symmetric] tr_def[symmetric] by auto
  have c: "m = ceil_div (length ks) b"
    unfolding ceil_div_def using b m by (rule ceil_div_unique)
  have A: "removal_lists tr = map (batch_of ks b) [0..<ceil_div (length ks) b]"
    using rl c by simp
  have B: "length (removal_lists tr) = ceil_div (length ks) b" using A by simp
  have C: "concat (removal_lists tr) = ks" using rl m(1) by (simp add: concat_batches)
  have F: "triggers tr = ks" using tg m(1) by simp
  have D: "\<forall>k. Suc k < ceil_div (length ks) b \<longrightarrow> length (batch_of ks b k) = b"
  proof (intro allI impI)
    fix k assume k: "Suc k < ceil_div (length ks) b"
    then have pos: "0 < length ks" by (cases "length ks = 0") (auto simp: ceil_div_def b)
    from k ceil_div_pos[OF b pos] have "Suc k \<le> (length ks - 1) div b"
      by (simp add: ceil_div_def)
    then have "Suc k * b \<le> ((length ks - 1) div b) * b" by (rule mult_le_mono1)
    also have "\<dots> \<le> length ks - 1" by simp
    finally have "k * b + b \<le> length ks" by (simp add: add.commute)
    then show "length (batch_of ks b k) = b" by (simp add: length_batch_of)
  qed
  have E: "0 < length ks \<longrightarrow> length (batch_of ks b (ceil_div (length ks) b - 1)) =
             (if length ks mod b = 0 then b else length ks mod b)"
  proof
    assume pos: "0 < length ks"
    have "ceil_div (length ks) b - 1 = (length ks - 1) div b"
      using ceil_div_pos[OF b pos] by (simp add: ceil_div_def)
    then have "length (batch_of ks b (ceil_div (length ks) b - 1)) =
        min b (length ks - ((length ks - 1) div b) * b)"
      by (simp add: length_batch_of)
    also have "\<dots> = min b (if length ks mod b = 0 then b else length ks mod b)"
      using last_batch_length[OF b pos] by simp
    also have "\<dots> = (if length ks mod b = 0 then b else length ks mod b)"
      using mod_less_divisor[OF b, of "length ks"] by (simp add: min_def)
    finally show "length (batch_of ks b (ceil_div (length ks) b - 1)) =
             (if length ks mod b = 0 then b else length ks mod b)" .
  qed
  have G: "length ks = 0 \<longrightarrow> removal_lists tr = [] \<and> triggers tr = []"
    using A F b by (auto simp: ceil_div_def)
  from A B C D E F G show ?thesis unfolding ks_def b_def tr_def by blast
qed

theorem execute_partitions_into_batches_witness:
  "describe_auto_scaling_groups env_three ''g'' =
      [Group (map InstanceDesc [''a'', ''b'', ''c''])]
   \<and> (0::int) < 2
   \<and> run_outcome 3 env_three ''g'' 2 ''s'' (\<lambda>p. None) = Returned ()
   \<and> removal_lists (trace (run_world 3 env_three ''g'' 2 ''s'' (\<lambda>p. None))) =
       [[''a'', ''b''], [''c'']]
   \<and> ceil_div (length (snapshot_keys env_three ''g'' ''s'' (\<lambda>p. None))) (nat 2) = 2
   \<and> triggers (trace (run_world 3 env_three ''g'' 2 ''s'' (\<lambda>p. None))) =
       [''a'', ''b'', ''c'']"
proof -
  have h1: "describe_auto_scaling_groups env_three ''g'' =
      [Group (map InstanceDesc [''a'', ''b'', ''c''])]"
    by (simp add: env_three_def)
  have h2: "(0::int) < 2" by simp
  have h3: "run_outcome 3 env_three ''g'' 2 ''s'' (\<lambda>p. None) = Returned ()"
    by code_simp
  note t = execute_partitions_into_batches[OF h1 h2 h3]
  have r: "removal_lists (trace (run_world 3 env_three ''g'' 2 ''s'' (\<lambda>p. None))) =
       [[''a'', ''b''], [''c'']]"
  proof -
    from t have "removal_lists (trace (run_world 3 env_three ''g'' 2 ''s'' (\<lambda>p. None))) =
        map (batch_of (snapshot_keys env_three ''g'' ''s'' (\<lambda>p. None)) (nat 2))
          [0..<ceil_div (length (snapshot_keys env_three ''g'' ''s'' (\<lambda>p. None))) (nat 2)]"
      by (rule conjunct1)
    also have "\<dots> = [[''a'', ''b''], [''c'']]" by code_simp
    finally show ?thesis .
  qed
  have c: "ceil_div (length (snapshot_keys env_three ''g'' ''s'' (\<lambda>p. None))) (nat 2) = 2"
    by code_simp
  have g: "triggers (trace (run_world 3 env_three ''g'' 2 ''s'' (\<lambda>p. None))) =
       [''a'', ''b'', ''c'']"
  proof -
    from t have "triggers (trace (run_world 3 env_three ''g'' 2 ''s'' (\<lambda>p. None))) =
        snapshot_keys env_three ''g'' ''s'' (\<lambda>p. None)"
      by simp
    also have "\<dots> = [''a'', ''b'', ''c'']" by code_simp
    finally show ?thesis .
  qed
  from h1 h2 h3 r c g show ?thesis by (simp only: simp_thms)
qed

subsection \<open>Batches do not overlap\<close>

lemma execute_loop_ordered:
  assumes run: "execute_loop fuel e p b tot 0 w = (r, w')"
    and b: "0 < b" and tot: "tot = int (length (keys_at w p))"
    and quiet: "triggers (trace w) = []"
    and n: "n < length (trace w')" and tn: "trace w' ! n = SetUnhealthy i"
    and i: "i \<in> set (batch_of (keys_at w p) (nat b) (Suc k))"
    and j: "j \<in> set (batch_of (keys_at w p) (nat b) k)"
  shows "Reload j ''terminated'' \<in> set (take n (trace w'))"
proof -
  define ks where "ks = keys_at w p"
  define nb where "nb = nat b"
  have dk: "distinct ks" by (simp add: ks_def)
  define ord where "ord = (\<lambda>tr. \<forall>n i k j. n < length tr \<longrightarrow> tr ! n = SetUnhealthy i
      \<longrightarrow> i \<in> set (batch_of ks nb (Suc k)) \<longrightarrow> j \<in> set (batch_of ks nb k)
      \<longrightarrow> Reload j ''terminated'' \<in> set (take n tr))"
  have ord_quiet: "ord (tr @ evs)" if "ord tr" "\<forall>ev \<in> set evs. \<forall>i. ev \<noteq> SetUnhealthy i"
    for tr evs
    unfolding ord_def
  proof (intro allI impI)
    fix n i k j
    assume a: "n < length (tr @ evs)" "(tr @ evs) ! n = SetUnhealthy i"
      "i \<in> set (batch_of ks nb (Suc k))" "j \<in> set (batch_of ks nb k)"
    show "Reload j ''terminated'' \<in> set (take n (tr @ evs))"
    proof (cases "n < length tr")
      case True
      with a that(1) have "Reload j ''terminated'' \<in> set (take n tr)"
        unfolding ord_def by (simp add: nth_append)
      with True show ?thesis by simp
    next
      case False
      with a have "evs ! (n - length tr) = SetUnhealthy i" "n - length tr < length evs"
        by (simp_all add: nth_append)
      with that(2) show ?thesis by (metis nth_mem)
    qed
  qed
  have ord_trig: "ord (tr @ map SetUnhealthy xs)"
    if "ord tr" "\<forall>i \<in> set xs. \<forall>k j. i \<in> set (batch_of ks nb (Suc k)) \<longrightarrow>
        j \<in> set (batch_of ks nb k) \<longrightarrow> Reload j ''terminated'' \<in> set tr"
    for tr xs
    unfolding ord_def
  proof (intro allI impI)
    fix n i k j
    assume a: "n < length (tr @ map SetUnhealthy xs)" "(tr @ map SetUnhealthy xs) ! n = SetUnhealthy i"
      "i \<in> set (batch_of ks nb (Suc k))" "j \<in> set (batch_of ks nb k)"
    show "Reload j ''terminated'' \<in> set (take n (tr @ map SetUnhealthy xs))"
    proof (cases "n < length tr")
      case True
      with a that(1) have "Reload j ''terminated'' \<in> set (take n tr)"
        unfolding ord_def by (simp add: nth_append)
      with True show ?thesis by simp
    next
      case False
      with a have "xs ! (n - length tr) = i" "n - length tr < length xs"
        by (simp_all add: nth_append)
      then have "i \<in> set xs" by (metis nth_mem)
      with that(2) a have "Reload j ''terminated'' \<in> set tr" by blast
      with False show ?thesis by simp
    qed
  qed
  define I where "I = (\<lambda>(i::int) (w1::world). keys_at w1 p = ks \<and> ord (trace w1) \<and>
     (\<exists>m. i = int m * b \<and>
        (\<forall>k<m. \<forall>j \<in> set (batch_of ks nb k). Reload j ''terminated'' \<in> set (trace w1))))"
  define R where "R = (\<lambda>(r::unit outcome) (w1::world). ord (trace w1))"
  have ord0: "ord (trace w)"
    unfolding ord_def
  proof (intro allI impI)
    fix n i k j
    assume "n < length (trace w)" "trace w ! n = SetUnhealthy i"
    then have "SetUnhealthy i \<in> set (trace w)" by (metis nth_mem)
    then have "i \<in> set (triggers (trace w))" by (simp add: triggers_in_set)
    with quiet show "Reload j ''terminated'' \<in> set (take n (trace w))" by simp
  qed
  have "R r w'"
  proof (rule execute_loop_rule[OF run, where I = I and R = R])
    show "I 0 w" unfolding I_def using ord0 by (auto simp: ks_def intro: exI[of _ 0])
  next
    fix i w1
    assume "I i w1"
    then show "R (Returned ()) w1" "R Running w1" unfolding I_def R_def by simp_all
  next
    fix f i w1 r3 w3
    assume i: "i < tot" and inv: "I i w1"
      and m: "monitor_instance_termination f e p (removal_slice w1 p i b)
          (triggered (removal_slice w1 p i b) w1) = (r3, w3)"
    from inv obtain m0 where k1: "keys_at w1 p = ks" and o1: "ord (trace w1)"
      and i0: "i = int m0 * b"
      and seen: "\<forall>k<m0. \<forall>j \<in> set (batch_of ks nb k). Reload j ''terminated'' \<in> set (trace w1)"
      unfolding I_def by blast
    have sl: "removal_slice w1 p i b = batch_of ks nb m0"
      unfolding removal_slice_def k1 i0 nb_def by (rule py_slice_batch[OF b])
    from monitor_after_trigger[OF m] obtain evs where
      tr: "trace w3 = trace w1 @ DebugRemovalList (batch_of ks nb m0)
             # map SetUnhealthy (batch_of ks nb m0) @ evs"
      and pe: "\<forall>ev \<in> set evs. is_poll_event (batch_of ks nb m0) ev"
      and alld: "r3 = Returned () \<longrightarrow>
          (\<forall>i \<in> set (batch_of ks nb m0). Reload i ''terminated'' \<in> set evs)"
      unfolding sl by blast
    have k3: "keys_at w3 p = ks"
      using monitor_keys[OF m] removal_slice_subset[of w1 p i b] k1 by simp
    have o2: "ord (trace w1 @ [DebugRemovalList (batch_of ks nb m0)])"
      using o1 by (rule ord_quiet) simp
    have pre: "\<forall>i \<in> set (batch_of ks nb m0). \<forall>k j. i \<in> set (batch_of ks nb (Suc k)) \<longrightarrow>
        j \<in> set (batch_of ks nb k) \<longrightarrow>
        Reload j ''terminated'' \<in> set (trace w1 @ [DebugRemovalList (batch_of ks nb m0)])"
    proof (intro ballI allI impI)
      fix i k j
      assume a: "i \<in> set (batch_of ks nb m0)" "i \<in> set (batch_of ks nb (Suc k))"
        "j \<in> set (batch_of ks nb k)"
      from batches_disjoint[OF dk a(1) a(2)] have "k < m0" by simp
      with seen a(3) show "Reload j ''terminated''
          \<in> set (trace w1 @ [DebugRemovalList (batch_of ks nb m0)])" by simp
    qed
    have o3: "ord ((trace w1 @ [DebugRemovalList (batch_of ks nb m0)])
        @ map SetUnhealthy (batch_of ks nb m0))"
      using o2 pre by (rule ord_trig)
    have nt: "\<forall>ev \<in> set evs. \<forall>i. ev \<noteq> SetUnhealthy i"
      using pe by auto
    have "ord (((trace w1 @ [DebugRemovalList (batch_of ks nb m0)])
        @ map SetUnhealthy (batch_of ks nb m0)) @ evs)"
      using o3 nt by (rule ord_quiet)
    then have o4: "ord (trace w3)" using tr by simp
    show "if r3 = Returned () then I (i + b) w3 else R r3 w3"
    proof (cases "r3 = Returned ()")
      case True
      have i3: "i + b = int (Suc m0) * b" using i0 by (simp add: algebra_simps)
      have "\<forall>k<Suc m0. \<forall>j \<in> set (batch_of ks nb k). Reload j ''terminated'' \<in> set (trace w3)"
        using seen alld True tr by (auto simp: less_Suc_eq)
      then have "I (i + b) w3" unfolding I_def using k3 o4 i3 by blast
      with True show ?thesis by simp
    next
      case False
      then show ?thesis using o4 by (simp add: R_def)
    qed
  qed
  then show ?thesis
    using n tn i j unfolding R_def ord_def ks_def nb_def by blast
qed

lemma run_without_snapshot:
  assumes "\<And>grp. describe_auto_scaling_groups e g \<noteq> [grp]"
  shows "triggers (trace (run_world fuel e g b p fs)) = []"
    and "run_outcome fuel e g b p fs \<noteq> Returned ()"
    and "run_outcome fuel e g b p fs \<noteq> Running"
proof -
  consider "describe_auto_scaling_groups e g = []"
    | "1 < length (describe_auto_scaling_groups e g)"
    using assms by (cases "describe_auto_scaling_groups e g" rule: list.exhaust;
        cases "tl (describe_auto_scaling_groups e g)") auto
  then have "triggers (trace (run_world fuel e g b p fs)) = []
      \<and> run_outcome fuel e g b p fs \<noteq> Returned () \<and> run_outcome fuel e g b p fs \<noteq> Running"
  proof cases
    case 1
    then show ?thesis
      by (simp add: run_world_def run_outcome_def execute_def new_instance_state_not_found boot_def
          triggers_def)
  next
    case 2
    then show ?thesis
      by (simp add: run_world_def run_outcome_def execute_def new_instance_state_ambiguous boot_def
          triggers_def)
  qed
  then show "triggers (trace (run_world fuel e g b p fs)) = []"
    and "run_outcome fuel e g b p fs \<noteq> Returned ()"
    and "run_outcome fuel e g b p fs \<noteq> Running" by simp_all
qed

text \<open>
  Claim C1. With batch size \<open>B > 0\<close>, at whatever point a run of \<^verbatim>\<open>execute\<close> is
  looked at: when \<^verbatim>\<open>set_instance_health\<close> is called for an instance \<open>i\<close> of batch
  \<open>k + 1\<close>, every instance \<open>j\<close> of batch \<open>k\<close> has been reloaded and seen in state
  \<^verbatim>\<open>'terminated'\<close> before that call.
\<close>

theorem batches_do_not_overlap:
  assumes "0 < B"
    and "trace (run_world fuel e g B p fs) = pre @ SetUnhealthy i # post"
    and "i \<in> set (batch_of (snapshot_keys e g p fs) (nat B) (Suc k))"
    and "j \<in> set (batch_of (snapshot_keys e g p fs) (nat B) k)"
  shows "Reload j ''terminated'' \<in> set pre"
proof (cases "\<exists>grp. describe_auto_scaling_groups e g = [grp]")
  case True
  then obtain grp where grp: "describe_auto_scaling_groups e g = [grp]" ..
  have run: "execute_loop fuel e p B (int (length (keys_at (snapshot e g p fs) p))) 0
      (snapshot e g p fs) = (run_outcome fuel e g B p fs, run_world fuel e g B p fs)"
    using run_loop[OF grp, of fuel p B fs] by (simp add: snapshot_keys_def)
  have q: "triggers (trace (snapshot e g p fs)) = []" using snapshot_quiet[OF grp] by simp
  have n: "length pre < length (trace (run_world fuel e g B p fs))"
    and tn: "trace (run_world fuel e g B p fs) ! length pre = SetUnhealthy i"
    and tk: "take (length pre) (trace (run_world fuel e g B p fs)) = pre"
    using assms(2) by simp_all
  from execute_loop_ordered[OF run assms(1) refl q n tn, of k j] assms(3,4) tk
  show ?thesis by (simp add: snapshot_keys_def)
next
  case False
  then have "triggers (trace (run_world fuel e g B p fs)) = []"
    by (intro run_without_snapshot) simp
  moreover have "i \<in> set (triggers (trace (run_world fuel e g B p fs)))"
    using assms(2) by (simp add: triggers_in_set)
  ultimately show ?thesis by simp
qed

theorem batches_do_not_overlap_witness:
  "(0::int) < 2
   \<and> trace (run_world 3 env_three ''g'' 2 ''s'' (\<lambda>p. None)) =
       [ShelveOpen ''s'', DescribeGroups ''g'', StoreSet ''a'' ''pending_replacement'',
        StoreSet ''b'' ''pending_replacement'', StoreSet ''c'' ''pending_replacement'',
        DebugRemovalList [''a'', ''b''], SetUnhealthy ''a'', SetUnhealthy ''b'', Sleep,
        Reload ''a'' ''running'', Reload ''b'' ''running'', Sleep,
        Reload ''a'' ''terminated'', StoreSet ''a'' ''terminated'',
        Reload ''b'' ''terminated'', StoreSet ''b'' ''terminated'', DebugRemovalList [''c'']]
       @ SetUnhealthy ''c'' # [Sleep, Reload ''c'' ''terminated'', StoreSet ''c'' ''terminated'']
   \<and> ''c'' \<in> set (batch_of (snapshot_keys env_three ''g'' ''s'' (\<lambda>p. None)) (nat 2) (Suc 0))
   \<and> ''b'' \<in> set (batch_of (snapshot_keys env_three ''g'' ''s'' (\<lambda>p. None)) (nat 2) 0)
   \<and> Reload ''b'' ''terminated'' \<in> set
       [ShelveOpen ''s'', DescribeGroups ''g'', StoreSet ''a'' ''pending_replacement'',
        StoreSet ''b'' ''pending_replacement'', StoreSet ''c'' ''pending_replacement'',
        DebugRemovalList [''a'', ''b''], SetUnhealthy ''a'', SetUnhealthy ''b'', Sleep,
        Reload ''a'' ''running'', Reload ''b'' ''running'', Sleep,
        Reload ''a'' ''terminated'', StoreSet ''a'' ''terminated'',
        Reload ''b'' ''terminated'', StoreSet ''b'' ''terminated'', DebugRemovalList [''c'']]"
proof -
  have h1: "(0::int) < 2" by simp
  have h2: "trace (run_world 3 env_three ''g'' 2 ''s'' (\<lambda>p. None)) =
       [ShelveOpen ''s'', DescribeGroups ''g'', StoreSet ''a'' ''pending_replacement'',
        StoreSet ''b'' ''pending_replacement'', StoreSet ''c'' ''pending_replacement'',
        DebugRemovalList [''a'', ''b''], SetUnhealthy ''a'', SetUnhealthy ''b'', Sleep,
        Reload ''a'' ''running'', Reload ''b'' ''running'', Sleep,
        Reload ''a'' ''terminated'', StoreSet ''a'' ''terminated'',
        Reload ''b'' ''terminated'', StoreSet ''b'' ''terminated'', DebugRemovalList [''c'']]
       @ SetUnhealthy ''c'' # [Sleep, Reload ''c'' ''terminated'', StoreSet ''c'' ''terminated'']"
    by code_simp
  have h3: "''c'' \<in> set (batch_of (snapshot_keys env_three ''g'' ''s'' (\<lambda>p. None)) (nat 2) (Suc 0))"
    by code_simp
  have h4: "''b'' \<in> set (batch_of (snapshot_keys env_three ''g'' ''s'' (\<lambda>p. None)) (nat 2) 0)"
    by code_simp
  from h1 h2 h3 h4 batches_do_not_overlap[OF h1 h2 h3 h4] show ?thesis
    by (simp only: simp_thms)
qed

subsection \<open>The shelf during and after a run\<close>

lemma execute_loop_all_terminated:
  assumes run: "execute_loop fuel e p b tot 0 w = (Returned (), w')"
    and b: "0 < b" and tot: "tot = int (length (keys_at w p))"
  shows "\<forall>k \<in> set (keys_at w p). value_at w' p k = Some ''terminated''"
proof -
  define ks where "ks = keys_at w p"
  define nb where "nb = nat b"
  have nb: "int nb = b" using b by (simp add: nb_def)
  define I where "I = (\<lambda>(i::int) (w1::world). keys_at w1 p = ks \<and>
     (\<exists>m. i = int m * b \<and> (\<forall>k \<in> set (take (m * nb) ks). value_at w1 p k = Some ''terminated'')))"
  define R where "R = (\<lambda>(r::unit outcome) (w1::world).
     r = Returned () \<longrightarrow> (\<forall>k \<in> set ks. value_at w1 p k = Some ''terminated''))"
  have "R (Returned ()) w'"
  proof (rule execute_loop_rule[OF run, where I = I and R = R])
    show "I 0 w" unfolding I_def by (auto simp: ks_def intro: exI[of _ 0])
  next
    fix i w1
    assume a: "\<not> i < tot" "I i w1"
    then obtain m where m: "i = int m * b"
      "\<forall>k \<in> set (take (m * nb) ks). value_at w1 p k = Some ''terminated''"
      unfolding I_def by blast
    have "int m * b = int (m * nb)" using nb by simp
    with a(1) m(1) have "length ks \<le> m * nb" unfolding tot ks_def by linarith
    with m(2) show "R (Returned ()) w1" unfolding R_def by simp
  next
    fix i w1
    show "R Running w1" unfolding R_def by simp
  next
    fix f i w1 r3 w3
    assume i: "i < tot" and inv: "I i w1"
      and m: "monitor_instance_termination f e p (removal_slice w1 p i b)
          (triggered (removal_slice w1 p i b) w1) = (r3, w3)"
    from inv obtain m0 where k1: "keys_at w1 p = ks" and i0: "i = int m0 * b"
      and v1: "\<forall>k \<in> set (take (m0 * nb) ks). value_at w1 p k = Some ''terminated''"
      unfolding I_def by blast
    have sl: "removal_slice w1 p i b = batch_of ks nb m0"
      unfolding removal_slice_def k1 i0 nb_def by (rule py_slice_batch[OF b])
    have k3: "keys_at w3 p = ks"
      using monitor_keys[OF m] removal_slice_subset[of w1 p i b] k1 by simp
    show "if r3 = Returned () then I (i + b) w3 else R r3 w3"
    proof (cases "r3 = Returned ()")
      case True
      have i3: "i + b = int (Suc m0) * b" using i0 by (simp add: algebra_simps)
      have "\<forall>k \<in> set (take (Suc m0 * nb) ks). value_at w3 p k = Some ''terminated''"
      proof
        fix k assume "k \<in> set (take (Suc m0 * nb) ks)"
        then have "k \<in> set (take (m0 * nb) ks) \<or> k \<in> set (batch_of ks nb m0)"
          using take_batch[of m0 nb ks] by (simp add: add.commute)
        then show "value_at w3 p k = Some ''terminated''"
        proof
          assume "k \<in> set (take (m0 * nb) ks)"
          with v1 have "value_at w1 p k = Some ''terminated''" by simp
          with monitor_values[OF m, of k] show ?thesis by auto
        next
          assume "k \<in> set (batch_of ks nb m0)"
          with monitor_terminated[of f e p _ _ w3 k] m True sl show ?thesis by simp
        qed
      qed
      then have "I (i + b) w3" unfolding I_def using k3 i3 by blast
      with True show ?thesis by simp
    next
      case False
      then show ?thesis by (simp add: R_def)
    qed
  qed
  then show ?thesis by (simp add: R_def ks_def)
qed

lemma execute_loop_nonpos_running:
  assumes run: "execute_loop fuel e p b tot i w = (r, w')" and b: "b \<le> 0" and i: "i < tot"
  shows "r = Running"
proof (rule execute_loop_rule[OF run, where I = "\<lambda>i w1. i < tot" and R = "\<lambda>r w1. r = Running"])
  show "i < tot" by (rule i)
next
  fix f i w1 r3 w3
  assume "i < tot"
    and m: "monitor_instance_termination f e p (removal_slice w1 p i b)
          (triggered (removal_slice w1 p i b) w1) = (r3, w3)"
  with monitor_not_raised[OF m] b
  show "if r3 = Returned () then i + b < tot else r3 = Running" by auto
qed simp_all

lemma execute_loop_values:
  assumes run: "execute_loop fuel e p b tot i w = (r, w')"
  shows "value_at w' p k = value_at w p k \<or> value_at w' p k = Some ''terminated''"
proof (rule execute_loop_rule[OF run,
      where I = "\<lambda>i w1. value_at w1 p k = value_at w p k \<or> value_at w1 p k = Some ''terminated''"
        and R = "\<lambda>r w1. value_at w1 p k = value_at w p k \<or> value_at w1 p k = Some ''terminated''"])
  fix f i w1 r3 w3
  assume inv: "value_at w1 p k = value_at w p k \<or> value_at w1 p k = Some ''terminated''"
    and m: "monitor_instance_termination f e p (removal_slice w1 p i b)
          (triggered (removal_slice w1 p i b) w1) = (r3, w3)"
  from monitor_values[OF m, of k] inv
  have "value_at w3 p k = value_at w p k \<or> value_at w3 p k = Some ''terminated''" by auto
  then show "if r3 = Returned ()
      then value_at w3 p k = value_at w p k \<or> value_at w3 p k = Some ''terminated''
      else value_at w3 p k = value_at w p k \<or> value_at w3 p k = Some ''terminated''" by simp
qed simp_all

lemma is_loop_event_poll: "is_poll_event xs ev \<Longrightarrow> set xs \<subseteq> set ks \<Longrightarrow> is_loop_event ks ev"
  by (cases ev) auto

lemma execute_loop_events:
  assumes run: "execute_loop fuel e p b tot i w = (r, w')"
  shows "\<exists>evs. trace w' = trace w @ evs \<and> (\<forall>ev \<in> set evs. is_loop_event (keys_at w p) ev)"
proof -
  define ks where "ks = keys_at w p"
  define I where "I = (\<lambda>(i::int) (w1::world). keys_at w1 p = ks \<and>
     (\<exists>evs. trace w1 = trace w @ evs \<and> (\<forall>ev \<in> set evs. is_loop_event ks ev)))"
  have "I 0 w'"
  proof (rule execute_loop_rule[OF run, where I = I and R = "\<lambda>r. I 0"])
    show "I i w" by (simp add: I_def ks_def)
  next
    fix i w1 assume "I i w1"
    then show "I 0 w1" "I 0 w1" by (simp_all add: I_def)
  next
    fix f i w1 r3 w3
    assume inv: "I i w1"
      and m: "monitor_instance_termination f e p (removal_slice w1 p i b)
          (triggered (removal_slice w1 p i b) w1) = (r3, w3)"
    from inv obtain evs where k1: "keys_at w1 p = ks" and t1: "trace w1 = trace w @ evs"
      and e1: "\<forall>ev \<in> set evs. is_loop_event ks ev"
      unfolding I_def by blast
    have sub: "set (removal_slice w1 p i b) \<subseteq> set ks"
      using removal_slice_subset[of w1 p i b] k1 by simp
    have k3: "keys_at w3 p = ks" using monitor_keys[OF m] sub k1 by simp
    from monitor_after_trigger[OF m] obtain ev2 where
      tr: "trace w3 = trace w1 @ DebugRemovalList (removal_slice w1 p i b)
             # map SetUnhealthy (removal_slice w1 p i b) @ ev2"
      and pe: "\<forall>ev \<in> set ev2. is_poll_event (removal_slice w1 p i b) ev"
      by blast
    have "trace w3 = trace w @ (evs @ DebugRemovalList (removal_slice w1 p i b)
             # map SetUnhealthy (removal_slice w1 p i b) @ ev2)"
      using tr t1 by simp
    moreover have "\<forall>ev \<in> set (evs @ DebugRemovalList (removal_slice w1 p i b)
             # map SetUnhealthy (removal_slice w1 p i b) @ ev2). is_loop_event ks ev"
      using e1 pe sub by (auto intro: is_loop_event_poll)
    ultimately have "I (i + b) w3" "I 0 w3" unfolding I_def using k3 by blast+
    then show "if r3 = Returned () then I (i + b) w3 else I 0 w3" by simp
  qed
  then show ?thesis by (simp add: I_def ks_def)
qed

lemma inventory_keys: "map fst (get_inventory p w) = keys_at w p"
  by (simp add: get_inventory_def shelf_items_def keys_at_def shelf_keys_def)

lemma inventory_value: "(k, v) \<in> set (get_inventory p w) \<longleftrightarrow> value_at w p k = Some v"
  by (simp add: get_inventory_def shelf_items_def value_at_def lookup.rep_eq)

lemma inventory_key_mem: "kv \<in> set (get_inventory p w) \<Longrightarrow> fst kv \<in> set (keys_at w p)"
  using inventory_keys[of p w] by (metis image_eqI list.set_map)

lemma run_keys:
  assumes "describe_auto_scaling_groups e g = [grp]"
  shows "keys_at (run_world fuel e g B p fs) p = snapshot_keys e g p fs"
  using execute_loop_keys[OF run_loop[OF assms, of fuel p B fs]]
  by (simp add: snapshot_keys_def)

lemma main_returns:
  "run_outcome fuel e (group a) (batch a) (state a) fs = Returned () \<Longrightarrow>
   main fuel e a (boot fs) = os_unlink (state a) (run_world fuel e (group a) (batch a) (state a) fs)"
  by (cases "execute fuel e (group a) (batch a) (state a) (boot fs)")
     (simp add: main_def run_outcome_def run_world_def)

text \<open>
  Claim C3. When \<^verbatim>\<open>execute\<close> has returned, the shelf (which the main block deletes
  next) has exactly the keys it had when the snapshot was taken, \<open>N\<close> of them, in the
  same order, and the value under every key is \<^verbatim>\<open>'terminated'\<close>. The snapshot's keys
  include every instance id of the group, and are exactly those ids when the store file
  did not exist before the run.
\<close>

theorem store_all_terminated_after_run:
  assumes "run_outcome fuel e g B p fs = Returned ()"
  shows "map fst (get_inventory p (run_world fuel e g B p fs)) = snapshot_keys e g p fs
       \<and> length (get_inventory p (run_world fuel e g B p fs)) = length (snapshot_keys e g p fs)
       \<and> (\<forall>kv \<in> set (get_inventory p (run_world fuel e g B p fs)). snd kv = ''terminated'')
       \<and> (\<forall>grp. describe_auto_scaling_groups e g = [grp] \<longrightarrow>
            InstanceId ` set (Instances grp) \<subseteq> set (snapshot_keys e g p fs)
          \<and> (fs p = None \<longrightarrow> set (snapshot_keys e g p fs) = InstanceId ` set (Instances grp)))"
proof -
  from assms run_without_snapshot(2)[of e g fuel B p fs]
  obtain grp where grp: "describe_auto_scaling_groups e g = [grp]" by blast
  define w' where "w' = run_world fuel e g B p fs"
  define ks where "ks = snapshot_keys e g p fs"
  have run: "execute_loop fuel e p B (int (length (keys_at (snapshot e g p fs) p))) 0
      (snapshot e g p fs) = (Returned (), w')"
    using run_loop[OF grp, of fuel p B fs] assms by (simp add: snapshot_keys_def w'_def)
  have k: "keys_at w' p = ks" unfolding w'_def ks_def by (rule run_keys[OF grp])
  have A: "map fst (get_inventory p w') = ks" using k by (simp add: inventory_keys)
  then have B: "length (get_inventory p w') = length ks" by (metis length_map)
  have t: "\<forall>k \<in> set ks. value_at w' p k = Some ''terminated''"
  proof (cases "0 < B")
    case True
    from execute_loop_all_terminated[OF run True refl] show ?thesis
      by (simp add: ks_def snapshot_keys_def)
  next
    case False
    have "ks = []"
    proof (rule ccontr)
      assume "ks \<noteq> []"
      then have "0 < int (length (keys_at (snapshot e g p fs) p))"
        by (simp add: ks_def snapshot_keys_def)
      from execute_loop_nonpos_running[OF run _ this] False show False by simp
    qed
    then show ?thesis by simp
  qed
  have C: "\<forall>kv \<in> set (get_inventory p w'). snd kv = ''terminated''"
  proof
    fix kv assume kv: "kv \<in> set (get_inventory p w')"
    then have "fst kv \<in> set ks" using inventory_key_mem[OF kv] k by simp
    with t have "value_at w' p (fst kv) = Some ''terminated''" by simp
    moreover from kv have "value_at w' p (fst kv) = Some (snd kv)"
      using inventory_value[of "fst kv" "snd kv" p w'] by simp
    ultimately show "snd kv = ''terminated''" by simp
  qed
  have D: "\<forall>grp. describe_auto_scaling_groups e g = [grp] \<longrightarrow>
            InstanceId ` set (Instances grp) \<subseteq> set ks
          \<and> (fs p = None \<longrightarrow> set ks = InstanceId ` set (Instances grp))"
    unfolding ks_def snapshot_keys_def by (auto simp: snapshot_keys)
  from A B C D show ?thesis unfolding w'_def ks_def by blast
qed

theorem store_all_terminated_after_run_witness:
  "run_outcome 3 env_three ''g'' 2 ''s'' (\<lambda>p. None) = Returned ()
   \<and> map fst (get_inventory ''s'' (run_world 3 env_three ''g'' 2 ''s'' (\<lambda>p. None))) = [''a'', ''b'', ''c'']
   \<and> length (get_inventory ''s'' (run_world 3 env_three ''g'' 2 ''s'' (\<lambda>p. None))) = 3
   \<and> get_inventory ''s'' (run_world 3 env_three ''g'' 2 ''s'' (\<lambda>p. None)) =
       [(''a'', ''terminated''), (''b'', ''terminated''), (''c'', ''terminated'')]"
proof -
  have h: "run_outcome 3 env_three ''g'' 2 ''s'' (\<lambda>p. None) = Returned ()" by code_simp
  have k: "snapshot_keys env_three ''g'' ''s'' (\<lambda>p. None) = [''a'', ''b'', ''c'']" by code_simp
  note t = store_all_terminated_after_run[OF h]
  from t k have a: "map fst (get_inventory ''s'' (run_world 3 env_three ''g'' 2 ''s'' (\<lambda>p. None)))
      = [''a'', ''b'', ''c'']" by simp
  from t k have b: "length (get_inventory ''s'' (run_world 3 env_three ''g'' 2 ''s'' (\<lambda>p. None))) = 3"
    by simp
  from t have c: "\<forall>kv \<in> set (get_inventory ''s'' (run_world 3 env_three ''g'' 2 ''s'' (\<lambda>p. None))).
      snd kv = ''terminated''" by blast
  have d: "xs = map (\<lambda>k. (k, v)) (map fst xs)" if "\<forall>kv \<in> set xs. snd kv = v"
    for xs :: "(string \<times> string) list" and v
    using that by (induction xs) auto
  have "get_inventory ''s'' (run_world 3 env_three ''g'' 2 ''s'' (\<lambda>p. None)) =
       [(''a'', ''terminated''), (''b'', ''terminated''), (''c'', ''terminated'')]"
    using d[OF c] a by simp
  with h a b show ?thesis by (simp only: simp_thms)
qed

lemma is_loop_event_StoreSet:
  "is_loop_event ks (StoreSet k v) \<longleftrightarrow> k \<in> set ks \<and> v = ''terminated''"
  by simp

lemma is_loop_event_not_describe: "is_loop_event ks ev \<Longrightarrow> ev \<noteq> DescribeGroups n"
  by (cases ev) auto

lemma is_loop_event_not_sync: "is_loop_event ks ev \<Longrightarrow> ev \<noteq> StoreSync"
  by (cases ev) auto

lemma is_loop_event_not_unlink: "is_loop_event ks ev \<Longrightarrow> ev \<noteq> Unlink q"
  by (cases ev) auto

lemma run_events:
  assumes "describe_auto_scaling_groups e g = [grp]"
  shows "\<exists>evs. trace (run_world fuel e g B p fs) = trace (snapshot e g p fs) @ evs
           \<and> (\<forall>ev \<in> set evs. is_loop_event (snapshot_keys e g p fs) ev)"
  using execute_loop_events[OF run_loop[OF assms, of fuel p B fs]]
  by (simp add: snapshot_keys_def)

lemma run_values:
  assumes "describe_auto_scaling_groups e g = [grp]"
  shows "value_at (run_world fuel e g B p fs) p k = value_at (snapshot e g p fs) p k
       \<or> value_at (run_world fuel e g B p fs) p k = Some ''terminated''"
  using execute_loop_values[OF run_loop[OF assms, of fuel p B fs]] by simp

subsection \<open>Termination of the loops\<close>

lemma py_slice_empty: "py_slice xs i i = []"
  by (simp add: py_slice_def Let_def)

lemma execute_loop_zero:
  assumes "i < tot"
  shows "fst (execute_loop fuel e p 0 tot i w) = Running
       \<and> trace (snd (execute_loop fuel e p 0 tot i w)) =
           trace w @ replicate fuel (DebugRemovalList [])
       \<and> files (snd (execute_loop fuel e p 0 tot i w)) = files w
       \<and> clock (snd (execute_loop fuel e p 0 tot i w)) = clock w"
proof (induction fuel arbitrary: w)
  case 0
  then show ?case using assms by (simp add: execute_loop_0)
next
  case (Suc f)
  have sl: "removal_slice w p i 0 = []" by (simp add: removal_slice_def py_slice_empty)
  have "execute_loop (Suc f) e p 0 tot i w = execute_loop f e p 0 tot i (triggered [] w)"
    using assms by (simp add: execute_loop_Suc sl monitor_instance_termination_def)
  with Suc[of "triggered [] w"] show ?case
    by (simp add: replicate_app_Cons_same)
qed

lemma monitor_loop_returns:
  assumes "\<forall>i \<in> set mon. \<forall>t \<ge> T. instance_state_name e t i = ''terminated''"
    and "0 < fuel" and "T < fuel + clock w"
  shows "fst (monitor_loop fuel e p mon w) = Returned ()"
  using assms
proof (induction fuel arbitrary: mon w)
  case 0
  then show ?case by simp
next
  case (Suc f)
  show ?case
  proof (cases "mon = []")
    case True
    then show ?thesis by simp
  next
    case False
    obtain w1 mon1 where pr: "poll_round e p mon (sleep w) = (w1, mon1)"
      and fo: "fold (poll_one e p) mon (sleep w, mon) = (w1, mon1)"
      by (rule poll_round_cases)
    have m1: "mon1 = filter (\<lambda>i. \<not> (i \<in> set mon
        \<and> instance_state_name e (clock (sleep w)) i = ''terminated'')) mon"
      using poll_fold_mon[OF fo] .
    have c1: "clock w1 = Suc (clock w)" using poll_fold_clock[OF fo] by simp
    have eq: "monitor_loop (Suc f) e p mon w = monitor_loop f e p mon1 w1"
      using False pr by (simp add: monitor_loop_Suc)
    show ?thesis
    proof (cases "T \<le> Suc (clock w)")
      case True
      with Suc.prems(1) have "mon1 = []" unfolding m1 by (auto simp: filter_empty_conv)
      with eq show ?thesis by simp
    next
      case False
      with Suc.prems(3) have f: "0 < f" "T < f + clock w1" using c1 by simp_all
      have "\<forall>i \<in> set mon1. \<forall>t \<ge> T. instance_state_name e t i = ''terminated''"
        using Suc.prems(1) m1 by auto
      from Suc.IH[OF this f] eq show ?thesis by simp
    qed
  qed
qed

lemma execute_loop_returns:
  assumes "1 \<le> b" and "tot = int (length (keys_at w p))" and "0 \<le> i"
    and "\<forall>k \<in> set (keys_at w p). \<forall>t \<ge> T. instance_state_name e t k = ''terminated''"
    and "nat (tot - i) + T + 1 \<le> fuel"
  shows "fst (execute_loop fuel e p b tot i w) = Returned ()"
  using assms
proof (induction fuel arbitrary: i w)
  case 0
  then show ?case by simp
next
  case (Suc f)
  show ?case
  proof (cases "i < tot")
    case False
    then show ?thesis by (simp add: execute_loop_done)
  next
    case True
    define xs where "xs = removal_slice w p i b"
    obtain r3 w3 where m: "monitor_instance_termination f e p xs (triggered xs w) = (r3, w3)"
      by (cases "monitor_instance_termination f e p xs (triggered xs w)")
    have sub: "set xs \<subseteq> set (keys_at w p)" unfolding xs_def by (rule removal_slice_subset)
    have f: "0 < f" "T < f + clock (triggered xs w)" using Suc.prems(5) True by simp_all
    have "\<forall>i \<in> set (dict_keys xs). \<forall>t \<ge> T. instance_state_name e t i = ''terminated''"
      using Suc.prems(4) sub by auto
    from monitor_loop_returns[OF this f, of p] m have r3: "r3 = Returned ()"
      by (simp add: monitor_instance_termination_def)
    have k3: "keys_at w3 p = keys_at w p" using monitor_keys[OF m] sub by simp
    have eq: "execute_loop (Suc f) e p b tot i w = execute_loop f e p b tot (i + b) w3"
      using True m r3 by (simp add: execute_loop_Suc xs_def)
    have "fst (execute_loop f e p b tot (i + b) w3) = Returned ()"
    proof (rule Suc.IH)
      show "1 \<le> b" by (rule Suc.prems(1))
      show "tot = int (length (keys_at w3 p))" using Suc.prems(2) k3 by simp
      show "0 \<le> i + b" using Suc.prems(1,3) by simp
      show "\<forall>k \<in> set (keys_at w3 p). \<forall>t \<ge> T. instance_state_name e t k = ''terminated''"
        using Suc.prems(4) k3 by simp
      show "nat (tot - (i + b)) + T + 1 \<le> f" using Suc.prems(1,5) True by linarith
    qed
    with eq show ?thesis by simp
  qed
qed

lemma run_batches:
  assumes "describe_auto_scaling_groups e g = [grp]" and "0 < B"
    and "run_outcome fuel e g B p fs = Returned ()"
  shows "removal_lists (trace (run_world fuel e g B p fs)) =
           map (batch_of (snapshot_keys e g p fs) (nat B))
             [0..<ceil_div (length (snapshot_keys e g p fs)) (nat B)]"
proof -
  have run: "execute_loop fuel e p B (int (length (keys_at (snapshot e g p fs) p))) 0
      (snapshot e g p fs) = (Returned (), run_world fuel e g B p fs)"
    using run_loop[OF assms(1), of fuel p B fs] assms(3) by (simp add: snapshot_keys_def)
  from execute_loop_batches[OF run assms(2) refl] snapshot_quiet[OF assms(1), of p fs]
  obtain m where m: "length (snapshot_keys e g p fs) \<le> m * nat B"
      "m = 0 \<or> (m - 1) * nat B < length (snapshot_keys e g p fs)"
    and rl: "removal_lists (trace (run_world fuel e g B p fs)) =
        map (batch_of (snapshot_keys e g p fs) (nat B)) [0..<m]"
    unfolding snapshot_keys_def by auto
  have "m = ceil_div (length (snapshot_keys e g p fs)) (nat B)"
    unfolding ceil_div_def using assms(2) m by (intro ceil_div_unique) simp_all
  with rl show ?thesis by simp
qed

text \<open>
  Claim C10. After a snapshot with at least one key: with batch size 0 the batch loop
  is still running after any number of iterations, each of which slices an empty
  removal list at the same index, so that no removal is ever triggered; with batch
  size \<open>B \<ge> 1\<close>, when every instance of the snapshot shows \<^verbatim>\<open>'terminated'\<close> from some
  tick \<open>T\<close> on, \<^verbatim>\<open>execute\<close> returns (fuel \<open>N + T + 1\<close> is enough), after \<open>\<lceil>N / B\<rceil>\<close>
  iterations.
\<close>

theorem batch_loop_termination:
  assumes "describe_auto_scaling_groups e g = [grp]"
  shows "(0 < length (snapshot_keys e g p fs) \<longrightarrow>
            run_outcome fuel e g 0 p fs = Running
          \<and> trace (run_world fuel e g 0 p fs) =
              trace (snapshot e g p fs) @ replicate fuel (DebugRemovalList [])
          \<and> triggers (trace (run_world fuel e g 0 p fs)) = [])
       \<and> (1 \<le> B \<longrightarrow>
          (\<forall>k \<in> set (snapshot_keys e g p fs). \<forall>t \<ge> T.
              instance_state_name e t k = ''terminated'') \<longrightarrow>
          length (snapshot_keys e g p fs) + T + 1 \<le> fuel \<longrightarrow>
            run_outcome fuel e g B p fs = Returned ()
          \<and> length (removal_lists (trace (run_world fuel e g B p fs))) =
              ceil_div (length (snapshot_keys e g p fs)) (nat B))"
proof (intro conjI impI)
  assume pos: "0 < length (snapshot_keys e g p fs)"
  then have lt: "(0::int) < int (length (snapshot_keys e g p fs))" by simp
  note z = execute_loop_zero[OF lt, of fuel e p "snapshot e g p fs"]
  note r = run_loop[OF assms, of fuel p 0 fs]
  show "run_outcome fuel e g 0 p fs = Running" using z r by simp
  show tr: "trace (run_world fuel e g 0 p fs) =
      trace (snapshot e g p fs) @ replicate fuel (DebugRemovalList [])" using z r by simp
  have "triggers (replicate n (DebugRemovalList [])) = []" for n
    by (induction n) simp_all
  then show "triggers (trace (run_world fuel e g 0 p fs)) = []"
    using tr snapshot_quiet[OF assms, of p fs] by simp
next
  assume B: "1 \<le> B"
    and ev: "\<forall>k \<in> set (snapshot_keys e g p fs). \<forall>t \<ge> T.
              instance_state_name e t k = ''terminated''"
    and fuel: "length (snapshot_keys e g p fs) + T + 1 \<le> fuel"
  have "fst (execute_loop fuel e p B (int (length (keys_at (snapshot e g p fs) p))) 0
      (snapshot e g p fs)) = Returned ()"
    using B ev fuel by (intro execute_loop_returns[where T = T]) (simp_all add: snapshot_keys_def)
  with run_loop[OF assms, of fuel p B fs]
  show ret: "run_outcome fuel e g B p fs = Returned ()" by (simp add: snapshot_keys_def)
  from B have "0 < B" by simp
  from run_batches[OF assms this ret]
  show "length (removal_lists (trace (run_world fuel e g B p fs))) =
              ceil_div (length (snapshot_keys e g p fs)) (nat B)" by simp
qed

theorem batch_loop_termination_witness:
  "describe_auto_scaling_groups env_three ''g'' = [Group (map InstanceDesc [''a'', ''b'', ''c''])]
   \<and> 0 < length (snapshot_keys env_three ''g'' ''s'' (\<lambda>p. None))
   \<and> run_outcome 4 env_three ''g'' 0 ''s'' (\<lambda>p. None) = Running
   \<and> triggers (trace (run_world 4 env_three ''g'' 0 ''s'' (\<lambda>p. None))) = []
   \<and> (1::int) \<le> 2
   \<and> run_outcome 6 env_three ''g'' 2 ''s'' (\<lambda>p. None) = Returned ()
   \<and> length (removal_lists (trace (run_world 6 env_three ''g'' 2 ''s'' (\<lambda>p. None)))) = 2"
proof -
  have h: "describe_auto_scaling_groups env_three ''g'' =
      [Group (map InstanceDesc [''a'', ''b'', ''c''])]"
    by (simp add: env_three_def)
  have k: "snapshot_keys env_three ''g'' ''s'' (\<lambda>p. None) = [''a'', ''b'', ''c'']" by code_simp
  have pos: "0 < length (snapshot_keys env_three ''g'' ''s'' (\<lambda>p. None))" by (simp add: k)
  have ev: "\<forall>k \<in> set (snapshot_keys env_three ''g'' ''s'' (\<lambda>p. None)). \<forall>t \<ge> 2.
      instance_state_name env_three t k = ''terminated''"
    by (simp add: env_three_def)
  have fu: "length (snapshot_keys env_three ''g'' ''s'' (\<lambda>p. None)) + 2 + 1 \<le> 6"
    by (simp add: k)
  have c: "ceil_div (length (snapshot_keys env_three ''g'' ''s'' (\<lambda>p. None))) (nat 2) = 2"
    by code_simp
  note t0 = batch_loop_termination[OF h, of "''s''" "\<lambda>p. None" 4 2 2]
  have i: "(1::int) \<le> 2" by simp
  note t1 = batch_loop_termination[OF h, of "''s''" "\<lambda>p. None" 6 2 2]
  from t0 pos have a: "run_outcome 4 env_three ''g'' 0 ''s'' (\<lambda>p. None) = Running"
    and b: "triggers (trace (run_world 4 env_three ''g'' 0 ''s'' (\<lambda>p. None))) = []"
    by blast+
  from t1 i ev fu have d: "run_outcome 6 env_three ''g'' 2 ''s'' (\<lambda>p. None) = Returned ()"
    and e: "length (removal_lists (trace (run_world 6 env_three ''g'' 2 ''s'' (\<lambda>p. None)))) =
        ceil_div (length (snapshot_keys env_three ''g'' ''s'' (\<lambda>p. None))) (nat 2)"
    by blast+
  from e c have e': "length (removal_lists (trace (run_world 6 env_three ''g'' 2 ''s'' (\<lambda>p. None)))) = 2"
    by simp
  from h pos a b i d e' show ?thesis by (simp only: simp_thms)
qed

subsection \<open>A batch size that is not positive\<close>

lemma py_slice_negative:
  assumes "i < 0" "b \<le> 0"
  shows "py_slice xs i (i + b) = []"
  using assms by (simp add: py_slice_def py_bound_def Let_def)

lemma execute_loop_nonpos_triggers:
  assumes run: "execute_loop fuel e p b tot 0 w = (r, w')" and b: "b \<le> 0"
  shows "triggers (trace w') = triggers (trace w)
       \<or> triggers (trace w') = triggers (trace w) @ py_slice (keys_at w p) 0 b"
proof -
  define ks where "ks = keys_at w p"
  define I where "I = (\<lambda>(i::int) (w1::world). keys_at w1 p = ks \<and> i \<le> 0
     \<and> (i = 0 \<longrightarrow> triggers (trace w1) = triggers (trace w))
     \<and> (i < 0 \<longrightarrow> triggers (trace w1) = triggers (trace w) @ py_slice ks 0 b))"
  define R where "R = (\<lambda>(r::unit outcome) (w1::world).
     triggers (trace w1) = triggers (trace w)
       \<or> triggers (trace w1) = triggers (trace w) @ py_slice ks 0 b)"
  have IR: "R r1 w1" if "I i w1" for i w1 r1
    using that unfolding I_def R_def by (cases "i = 0") auto
  have "R r w'"
  proof (rule execute_loop_rule[OF run, where I = I and R = R])
    show "I 0 w" by (simp add: I_def ks_def)
  next
    fix i w1 assume "I i w1"
    then show "R (Returned ()) w1" "R Running w1" by (rule IR)+
  next
    fix f i w1 r3 w3
    assume inv: "I i w1"
      and m: "monitor_instance_termination f e p (removal_slice w1 p i b)
          (triggered (removal_slice w1 p i b) w1) = (r3, w3)"
    from inv have k1: "keys_at w1 p = ks" and i0: "i \<le> 0"
      and t0: "i = 0 \<longrightarrow> triggers (trace w1) = triggers (trace w)"
      and tn: "i < 0 \<longrightarrow> triggers (trace w1) = triggers (trace w) @ py_slice ks 0 b"
      unfolding I_def by simp_all
    from monitor_after_trigger[OF m] obtain evs where
      tr: "trace w3 = trace w1 @ DebugRemovalList (removal_slice w1 p i b)
             # map SetUnhealthy (removal_slice w1 p i b) @ evs"
      and pe: "\<forall>ev \<in> set evs. is_poll_event (removal_slice w1 p i b) ev"
      by blast
    from poll_events_quiet[OF pe] have q: "triggers evs = []" by simp
    have t3: "triggers (trace w3) = triggers (trace w1) @ removal_slice w1 p i b"
      using tr q by simp
    have k3: "keys_at w3 p = ks"
      using monitor_keys[OF m] removal_slice_subset[of w1 p i b] k1 by simp
    have "I (i + b) w3"
    proof (cases "i = 0")
      case True
      then have sl: "removal_slice w1 p i b = py_slice ks 0 b"
        by (simp add: removal_slice_def k1)
      show ?thesis
      proof (cases "b = 0")
        case True
        with \<open>i = 0\<close> t0 t3 sl k3 show ?thesis by (simp add: I_def py_slice_empty)
      next
        case False
        with b have "b < 0" by simp
        with \<open>i = 0\<close> t0 t3 sl k3 show ?thesis by (simp add: I_def)
      qed
    next
      case False
      with i0 have neg: "i < 0" by simp
      then have "removal_slice w1 p i b = []"
        using b by (simp add: removal_slice_def py_slice_negative)
      with neg tn t3 k3 b show ?thesis by (simp add: I_def)
    qed
    then show "if r3 = Returned () then I (i + b) w3 else R r3 w3" using IR by simp
  qed
  then show ?thesis by (simp add: R_def ks_def)
qed

lemma run_outcome_not_raised:
  assumes "describe_auto_scaling_groups e g = [grp]"
  shows "run_outcome fuel e g B p fs = Returned () \<or> run_outcome fuel e g B p fs = Running"
  using execute_loop_not_raised[OF run_loop[OF assms, of fuel p B fs]] .

text \<open>
  Claim C5, as the specification states it, fails: nothing checks the batch size.
  \<^verbatim>\<open>parse_args\<close> passes \<open>-1\<close> on; \<^verbatim>\<open>execute\<close> opens the shelf and describes the
  group, slices \<^verbatim>\<open>keys[0:-1]\<close>, triggers the removal of \<open>a\<close> and \<open>b\<close> and waits for
  them, with no error. With batch size 0 and a group of no instance it returns.
\<close>

theorem nonpositive_batch_not_rejected:
  "batch (parse_args (Some (- 1)) ''g'' ''r'' (Some ''s'')) = - 1
   \<and> ShelveOpen ''s'' \<in> set (trace (run_world 2 env_three ''g'' (- 1) ''s'' (\<lambda>p. None)))
   \<and> DescribeGroups ''g'' \<in> set (trace (run_world 2 env_three ''g'' (- 1) ''s'' (\<lambda>p. None)))
   \<and> triggers (trace (run_world 2 env_three ''g'' (- 1) ''s'' (\<lambda>p. None))) = [''a'', ''b'']
   \<and> run_outcome 2 env_three ''g'' (- 1) ''s'' (\<lambda>p. None) = Running
   \<and> run_outcome 0 env_empty ''g'' 0 ''s'' (\<lambda>p. None) = Returned ()"
  by code_simp

text \<open>
  Claim C5, amended. With a batch size \<open>B \<le> 0\<close> and the group found, \<^verbatim>\<open>execute\<close> takes
  the snapshot as for any batch size and raises no error. When the snapshot has no key
  it returns at once, having done nothing after the snapshot; when it has one, it never
  returns. With \<open>B = 0\<close> no removal is triggered; with \<open>B < 0\<close> the only removals
  triggered are those of the first iteration's slice \<^verbatim>\<open>keys[0:B]\<close>.
\<close>

theorem nonpositive_batch_runs:
  assumes "B \<le> 0" and "describe_auto_scaling_groups e g = [grp]"
  shows "(\<exists>evs. trace (run_world fuel e g B p fs) = trace (snapshot e g p fs) @ evs)
       \<and> (run_outcome fuel e g B p fs = Returned () \<or> run_outcome fuel e g B p fs = Running)
       \<and> (length (snapshot_keys e g p fs) = 0 \<longrightarrow>
            run_outcome fuel e g B p fs = Returned ()
          \<and> trace (run_world fuel e g B p fs) = trace (snapshot e g p fs))
       \<and> (0 < length (snapshot_keys e g p fs) \<longrightarrow> run_outcome fuel e g B p fs = Running)
       \<and> (B = 0 \<longrightarrow> triggers (trace (run_world fuel e g B p fs)) = [])
       \<and> (triggers (trace (run_world fuel e g B p fs)) = []
          \<or> triggers (trace (run_world fuel e g B p fs)) = py_slice (snapshot_keys e g p fs) 0 B)"
proof -
  note run = run_loop[OF assms(2), of fuel p B fs]
  have A: "\<exists>evs. trace (run_world fuel e g B p fs) = trace (snapshot e g p fs) @ evs"
    using run_events[OF assms(2), of fuel B p fs] by blast
  have B: "run_outcome fuel e g B p fs = Returned () \<or> run_outcome fuel e g B p fs = Running"
    by (rule run_outcome_not_raised[OF assms(2)])
  have C: "length (snapshot_keys e g p fs) = 0 \<longrightarrow>
            run_outcome fuel e g B p fs = Returned ()
          \<and> trace (run_world fuel e g B p fs) = trace (snapshot e g p fs)"
  proof
    assume "length (snapshot_keys e g p fs) = 0"
    with run have "(Returned (), snapshot e g p fs) =
        (run_outcome fuel e g B p fs, run_world fuel e g B p fs)"
      by (simp add: execute_loop_done)
    then show "run_outcome fuel e g B p fs = Returned ()
          \<and> trace (run_world fuel e g B p fs) = trace (snapshot e g p fs)" by simp
  qed
  have D: "0 < length (snapshot_keys e g p fs) \<longrightarrow> run_outcome fuel e g B p fs = Running"
  proof
    assume "0 < length (snapshot_keys e g p fs)"
    then have "(0::int) < int (length (snapshot_keys e g p fs))" by simp
    from execute_loop_nonpos_running[OF run assms(1) this]
    show "run_outcome fuel e g B p fs = Running" .
  qed
  have F: "triggers (trace (run_world fuel e g B p fs)) = []
          \<or> triggers (trace (run_world fuel e g B p fs)) = py_slice (snapshot_keys e g p fs) 0 B"
    using execute_loop_nonpos_triggers[OF run assms(1)] snapshot_quiet[OF assms(2), of p fs]
    by (simp add: snapshot_keys_def)
  have E: "B = 0 \<longrightarrow> triggers (trace (run_world fuel e g B p fs)) = []"
    using F by (auto simp: py_slice_empty)
  note all = A B C D E F
  show ?thesis by (intro conjI all)
qed

theorem nonpositive_batch_runs_witness:
  "(- 1 :: int) \<le> 0
   \<and> describe_auto_scaling_groups env_three ''g'' = [Group (map InstanceDesc [''a'', ''b'', ''c''])]
   \<and> 0 < length (snapshot_keys env_three ''g'' ''s'' (\<lambda>p. None))
   \<and> run_outcome 5 env_three ''g'' (- 1) ''s'' (\<lambda>p. None) = Running
   \<and> (triggers (trace (run_world 5 env_three ''g'' (- 1) ''s'' (\<lambda>p. None))) = []
      \<or> triggers (trace (run_world 5 env_three ''g'' (- 1) ''s'' (\<lambda>p. None))) =
          py_slice (snapshot_keys env_three ''g'' ''s'' (\<lambda>p. None)) 0 (- 1))
   \<and> py_slice (snapshot_keys env_three ''g'' ''s'' (\<lambda>p. None)) 0 (- 1) = [''a'', ''b'']"
proof -
  have h1: "(- 1 :: int) \<le> 0" by simp
  have h2: "describe_auto_scaling_groups env_three ''g'' =
      [Group (map InstanceDesc [''a'', ''b'', ''c''])]"
    by (simp add: env_three_def)
  have k: "snapshot_keys env_three ''g'' ''s'' (\<lambda>p. None) = [''a'', ''b'', ''c'']" by code_simp
  have pos: "0 < length (snapshot_keys env_three ''g'' ''s'' (\<lambda>p. None))" by (simp add: k)
  have sl: "py_slice (snapshot_keys env_three ''g'' ''s'' (\<lambda>p. None)) 0 (- 1) = [''a'', ''b'']"
    by code_simp
  note t = nonpositive_batch_runs[OF h1 h2, of 5 "''s''" "\<lambda>p. None"]
  from t pos have a: "run_outcome 5 env_three ''g'' (- 1) ''s'' (\<lambda>p. None) = Running"
    by blast
  from t have b: "triggers (trace (run_world 5 env_three ''g'' (- 1) ''s'' (\<lambda>p. None))) = []
      \<or> triggers (trace (run_world 5 env_three ''g'' (- 1) ''s'' (\<lambda>p. None))) =
          py_slice (snapshot_keys env_three ''g'' ''s'' (\<lambda>p. None)) 0 (- 1)"
    by blast
  from h1 h2 pos a b sl show ?thesis by (intro conjI)
qed

subsection \<open>The store file after a run\<close>

lemma os_unlink_trace [simp]: "trace (snd (os_unlink q w)) = trace w @ [Unlink q]"
  by (simp add: os_unlink_def split: option.splits)

lemma main_trace:
  "trace (snd (main fuel e a (boot fs))) =
     (if run_outcome fuel e (group a) (batch a) (state a) fs = Returned ()
      then trace (run_world fuel e (group a) (batch a) (state a) fs) @ [Unlink (state a)]
      else trace (run_world fuel e (group a) (batch a) (state a) fs))"
proof (cases "execute fuel e (group a) (batch a) (state a) (boot fs)")
  case (Pair r w1)
  then show ?thesis
    by (cases r) (simp_all add: main_def run_outcome_def run_world_def)
qed

lemma run_never_unlinks: "Unlink q \<notin> set (trace (run_world fuel e g B p fs))"
proof (cases "\<exists>grp. describe_auto_scaling_groups e g = [grp]")
  case True
  then obtain grp where grp: "describe_auto_scaling_groups e g = [grp]" ..
  from run_events[OF grp, of fuel B p fs] obtain evs where
    evs: "trace (run_world fuel e g B p fs) = trace (snapshot e g p fs) @ evs"
      "\<forall>ev \<in> set evs. is_loop_event (snapshot_keys e g p fs) ev" by blast
  have "Unlink q \<notin> set evs" using evs(2) is_loop_event_not_unlink by blast
  then show ?thesis using evs(1) snapshot_trace[OF grp, of p fs] by auto
next
  case False
  then consider "describe_auto_scaling_groups e g = []"
    | "1 < length (describe_auto_scaling_groups e g)"
    by (cases "describe_auto_scaling_groups e g" rule: list.exhaust;
        cases "tl (describe_auto_scaling_groups e g)") auto
  then show ?thesis
  proof cases
    case 1
    then show ?thesis
      by (simp add: run_world_def execute_def new_instance_state_not_found boot_def)
  next
    case 2
    then show ?thesis
      by (simp add: run_world_def execute_def new_instance_state_ambiguous boot_def)
  qed
qed

lemma run_never_syncs: "StoreSync \<notin> set (trace (run_world fuel e g B p fs))"
proof (cases "\<exists>grp. describe_auto_scaling_groups e g = [grp]")
  case True
  then obtain grp where grp: "describe_auto_scaling_groups e g = [grp]" ..
  from run_events[OF grp, of fuel B p fs] obtain evs where
    evs: "trace (run_world fuel e g B p fs) = trace (snapshot e g p fs) @ evs"
      "\<forall>ev \<in> set evs. is_loop_event (snapshot_keys e g p fs) ev" by blast
  have "StoreSync \<notin> set evs" using evs(2) is_loop_event_not_sync by blast
  then show ?thesis using evs(1) snapshot_trace[OF grp, of p fs] by auto
next
  case False
  then consider "describe_auto_scaling_groups e g = []"
    | "1 < length (describe_auto_scaling_groups e g)"
    by (cases "describe_auto_scaling_groups e g" rule: list.exhaust;
        cases "tl (describe_auto_scaling_groups e g)") auto
  then show ?thesis
  proof cases
    case 1
    then show ?thesis
      by (simp add: run_world_def execute_def new_instance_state_not_found boot_def)
  next
    case 2
    then show ?thesis
      by (simp add: run_world_def execute_def new_instance_state_ambiguous boot_def)
  qed
qed

text \<open>
  Claim C9. \<^verbatim>\<open>new_instance_state\<close> opens the shelf before it queries the group. When
  the group is not found the run ends in \<^verbatim>\<open>SystemExit(1)\<close> with the trace
  \<^verbatim>\<open>shelve.open\<close>, \<^verbatim>\<open>describe_auto_scaling_groups\<close>, error log: the store file
  exists afterwards (empty when there was none before, since nothing was written),
  and \<^verbatim>\<open>os.unlink\<close> was not called. In any run, \<^verbatim>\<open>os.unlink\<close> is called only on
  the store file and only when \<^verbatim>\<open>execute\<close> has returned.
\<close>

theorem store_file_left_behind:
  "(describe_auto_scaling_groups e (group a) = [] \<longrightarrow>
      fst (main fuel e a (boot fs)) = Raised (SystemExit 1)
    \<and> trace (snd (main fuel e a (boot fs))) =
        [ShelveOpen (state a), DescribeGroups (group a),
         LogError (''AutoScaling group '' @ group a @ '' not found!'')]
    \<and> files (snd (main fuel e a (boot fs))) (state a) =
        Some (case fs (state a) of None \<Rightarrow> DAList.empty | Some s \<Rightarrow> s)
    \<and> (fs (state a) = None \<longrightarrow>
         map_option shelf_items (files (snd (main fuel e a (boot fs))) (state a)) = Some [])
    \<and> Unlink (state a) \<notin> set (trace (snd (main fuel e a (boot fs)))))
   \<and> (Unlink q \<in> set (trace (snd (main fuel e a (boot fs)))) \<longrightarrow>
        q = state a \<and> run_outcome fuel e (group a) (batch a) (state a) fs = Returned ())"
proof (intro conjI impI)
  assume nf: "describe_auto_scaling_groups e (group a) = []"
  show "fst (main fuel e a (boot fs)) = Raised (SystemExit 1)"
    using nf by (simp add: main_not_found)
  show "trace (snd (main fuel e a (boot fs))) =
        [ShelveOpen (state a), DescribeGroups (group a),
         LogError (''AutoScaling group '' @ group a @ '' not found!'')]"
    using nf by (simp add: main_not_found boot_def)
  then show "Unlink (state a) \<notin> set (trace (snd (main fuel e a (boot fs))))" by simp
  show "files (snd (main fuel e a (boot fs))) (state a) =
        Some (case fs (state a) of None \<Rightarrow> DAList.empty | Some s \<Rightarrow> s)"
    using nf by (simp add: main_not_found boot_def shelf_at_def)
  then show "map_option shelf_items (files (snd (main fuel e a (boot fs))) (state a)) = Some []"
    if "fs (state a) = None" using that by (simp add: shelf_items_def empty.rep_eq)
next
  assume u: "Unlink q \<in> set (trace (snd (main fuel e a (boot fs))))"
  have n: "Unlink q \<notin> set (trace (run_world fuel e (group a) (batch a) (state a) fs))"
    by (rule run_never_unlinks)
  from u n show "q = state a"
    by (auto simp: main_trace split: if_splits)
  from u n show "run_outcome fuel e (group a) (batch a) (state a) fs = Returned ()"
    by (auto simp: main_trace split: if_splits)
qed

theorem store_file_left_behind_witness:
  "describe_auto_scaling_groups env_none (group (parse_args (Some 2) ''web'' ''eu-west-1'' None)) = []
   \<and> fst (main 3 env_none (parse_args (Some 2) ''web'' ''eu-west-1'' None) (boot (\<lambda>p. None)))
       = Raised (SystemExit 1)
   \<and> trace (snd (main 3 env_none (parse_args (Some 2) ''web'' ''eu-west-1'' None) (boot (\<lambda>p. None))))
       = [ShelveOpen ''web.state'', DescribeGroups ''web'',
          LogError ''AutoScaling group web not found!'']
   \<and> map_option shelf_items
        (files (snd (main 3 env_none (parse_args (Some 2) ''web'' ''eu-west-1'' None) (boot (\<lambda>p. None))))
           ''web.state'') = Some []
   \<and> Unlink ''web.state''
       \<notin> set (trace (snd (main 3 env_none (parse_args (Some 2) ''web'' ''eu-west-1'' None) (boot (\<lambda>p. None)))))
   \<and> Unlink ''web.state''
       \<in> set (trace (snd (main 2 env_one (parse_args None ''web'' ''eu-west-1'' None) (boot (\<lambda>p. None)))))
   \<and> run_outcome 2 env_one ''web'' 1 ''web.state'' (\<lambda>p. None) = Returned ()"
proof -
  have u: "Unlink ''web.state''
       \<in> set (trace (snd (main 2 env_one (parse_args None ''web'' ''eu-west-1'' None) (boot (\<lambda>p. None)))))"
    by code_simp
  from store_file_left_behind[of env_one "parse_args None ''web'' ''eu-west-1'' None"
      2 "\<lambda>p. None" "''web.state''"] u
  have r: "run_outcome 2 env_one ''web'' 1 ''web.state'' (\<lambda>p. None) = Returned ()"
    by (simp add: parse_args_def)
  from store_file_left_behind[of env_none "parse_args (Some 2) ''web'' ''eu-west-1'' None"
      3 "\<lambda>p. None" "''web.state''"] u r
  show ?thesis
    by (simp add: env_none_def parse_args_def shelf_items_def empty.rep_eq)
qed

subsection \<open>More fuel does not change a run that has returned\<close>

lemma monitor_loop_more_fuel:
  "monitor_loop f e p mon w = (Returned (), w') \<Longrightarrow>
   monitor_loop (Suc f) e p mon w = (Returned (), w')"
proof (induction f arbitrary: mon w)
  case 0
  then show ?case by (cases "mon = []") (simp_all add: monitor_loop_0)
next
  case (Suc f)
  show ?case
  proof (cases "mon = []")
    case True
    with Suc.prems show ?thesis by simp
  next
    case False
    obtain w1 mon1 where pr: "poll_round e p mon (sleep w) = (w1, mon1)"
      by (cases "poll_round e p mon (sleep w)")
    with Suc.prems False have "monitor_loop f e p mon1 w1 = (Returned (), w')"
      by (simp add: monitor_loop_Suc)
    from Suc.IH[OF this] False pr show ?thesis by (simp add: monitor_loop_Suc)
  qed
qed

lemma execute_loop_more_fuel:
  "execute_loop f e p b tot i w = (Returned (), w') \<Longrightarrow>
   execute_loop (Suc f) e p b tot i w = (Returned (), w')"
proof (induction f arbitrary: i w)
  case 0
  then show ?case by (cases "i < tot") (simp_all add: execute_loop_0 execute_loop_done)
next
  case (Suc f)
  show ?case
  proof (cases "i < tot")
    case False
    with Suc.prems show ?thesis by (simp add: execute_loop_done)
  next
    case True
    define xs where "xs = removal_slice w p i b"
    obtain r3 w3 where m: "monitor_instance_termination f e p xs (triggered xs w) = (r3, w3)"
      by (cases "monitor_instance_termination f e p xs (triggered xs w)")
    have r3: "r3 = Returned ()"
      using Suc.prems True m by (cases r3) (simp_all add: execute_loop_Suc xs_def)
    with m have m': "monitor_instance_termination (Suc f) e p xs (triggered xs w) = (Returned (), w3)"
      by (simp add: monitor_instance_termination_def monitor_loop_more_fuel)
    have "execute_loop f e p b tot (i + b) w3 = (Returned (), w')"
      using Suc.prems True m r3 by (simp add: execute_loop_Suc xs_def)
    from Suc.IH[OF this] True m' show ?thesis
      by (simp add: execute_loop_Suc[of i tot "Suc f"] xs_def)
  qed
qed

lemma run_more_fuel:
  assumes "run_outcome f e g B p fs = Returned ()" and "f \<le> f'"
  shows "run_outcome f' e g B p fs = Returned ()
       \<and> run_world f' e g B p fs = run_world f e g B p fs"
proof -
  from assms(1) run_without_snapshot(2)[of e g f B p fs]
  obtain grp where grp: "describe_auto_scaling_groups e g = [grp]" by blast
  have "execute_loop (f + d) e p B (int (length (snapshot_keys e g p fs))) 0 (snapshot e g p fs)
      = (Returned (), run_world f e g B p fs)" for d
  proof (induction d)
    case 0
    then show ?case using run_loop[OF grp, of f p B fs] assms(1) by simp
  next
    case (Suc d)
    then show ?case using execute_loop_more_fuel by simp
  qed
  from this[of "f' - f"] assms(2) run_loop[OF grp, of f' p B fs] show ?thesis by simp
qed

subsection \<open>More fuel continues a run that is still going\<close>

lemma extends_refl [simp]: "extends p w w"
  by (simp add: extends_def)

lemma extends_trans: "extends p w w' \<Longrightarrow> extends p w' w'' \<Longrightarrow> extends p w w''"
  by (auto simp: extends_def)

lemma monitor_loop_extends:
  assumes "monitor_loop f e p mon w = (r, w')"
  shows "extends p w w'"
  unfolding extends_def
proof (intro conjI allI impI)
  show "\<exists>evs. trace w' = trace w @ evs" using monitor_loop_trace[OF assms] by blast
  fix k assume "value_at w p k = Some ''terminated''"
  with monitor_loop_values[OF assms, of k] show "value_at w' p k = Some ''terminated''" by auto
qed

lemma execute_loop_extends:
  assumes "execute_loop f e p b tot i w = (r, w')"
  shows "extends p w w'"
  unfolding extends_def
proof (intro conjI allI impI)
  show "\<exists>evs. trace w' = trace w @ evs" using execute_loop_events[OF assms] by blast
  fix k assume "value_at w p k = Some ''terminated''"
  with execute_loop_values[OF assms, of k] show "value_at w' p k = Some ''terminated''" by auto
qed

lemma monitor_loop_continues:
  "monitor_loop f e p mon w = (r, w1) \<Longrightarrow> monitor_loop (Suc f) e p mon w = (r', w1') \<Longrightarrow>
   extends p w1 w1'"
proof (induction f arbitrary: mon w)
  case 0
  show ?case
  proof (cases "mon = []")
    case True
    with 0 show ?thesis by simp
  next
    case False
    with 0 have "w1 = w" by (simp add: monitor_loop_0)
    with monitor_loop_extends[OF 0(2)] show ?thesis by simp
  qed
next
  case (Suc f)
  show ?case
  proof (cases "mon = []")
    case True
    with Suc.prems show ?thesis by simp
  next
    case False
    obtain w2 mon2 where pr: "poll_round e p mon (sleep w) = (w2, mon2)"
      by (cases "poll_round e p mon (sleep w)")
    from Suc.prems False pr have "monitor_loop f e p mon2 w2 = (r, w1)"
      "monitor_loop (Suc f) e p mon2 w2 = (r', w1')"
      by (simp_all add: monitor_loop_Suc)
    then show ?thesis by (rule Suc.IH)
  qed
qed

lemma execute_loop_continues:
  "execute_loop f e p b tot i w = (r, w1) \<Longrightarrow> execute_loop (Suc f) e p b tot i w = (r', w1') \<Longrightarrow>
   extends p w1 w1'"
proof (induction f arbitrary: i w)
  case 0
  show ?case
  proof (cases "i < tot")
    case False
    with 0 show ?thesis by (simp add: execute_loop_done)
  next
    case True
    with 0 have "w1 = w" by (simp add: execute_loop_0)
    with execute_loop_extends[OF 0(2)] show ?thesis by simp
  qed
next
  case (Suc f)
  show ?case
  proof (cases "i < tot")
    case False
    with Suc.prems show ?thesis by (simp add: execute_loop_done)
  next
    case True
    define xs where "xs = removal_slice w p i b"
    obtain r3 w3 where m: "monitor_instance_termination f e p xs (triggered xs w) = (r3, w3)"
      by (cases "monitor_instance_termination f e p xs (triggered xs w)")
    obtain r4 w4 where m': "monitor_instance_termination (Suc f) e p xs (triggered xs w) = (r4, w4)"
      by (cases "monitor_instance_termination (Suc f) e p xs (triggered xs w)")
    show ?thesis
    proof (cases "r3 = Returned ()")
      case True
      with m have "monitor_instance_termination (Suc f) e p xs (triggered xs w) = (Returned (), w3)"
        by (simp add: monitor_instance_termination_def monitor_loop_more_fuel)
      with m' have eq: "r4 = Returned ()" "w4 = w3" by simp_all
      from Suc.prems(1) \<open>i < tot\<close> m True
      have a: "execute_loop f e p b tot (i + b) w3 = (r, w1)"
        by (simp add: execute_loop_Suc xs_def)
      from Suc.prems(2) \<open>i < tot\<close> m' eq
      have b: "execute_loop (Suc f) e p b tot (i + b) w3 = (r', w1')"
        by (simp add: execute_loop_Suc[of i tot "Suc f"] xs_def)
      from a b show ?thesis by (rule Suc.IH)
    next
      case False
      with Suc.prems(1) \<open>i < tot\<close> m have w1: "w1 = w3"
        by (cases r3) (simp_all add: execute_loop_Suc xs_def)
      have e34: "extends p w3 w4"
        using m m' monitor_loop_continues[of f e p "dict_keys xs" "triggered xs w" r3 w3 r4 w4]
        by (simp add: monitor_instance_termination_def)
      show ?thesis
      proof (cases "r4 = Returned ()")
        case True
        with Suc.prems(2) \<open>i < tot\<close> m'
        have "execute_loop (Suc f) e p b tot (i + b) w4 = (r', w1')"
          by (simp add: execute_loop_Suc[of i tot "Suc f"] xs_def)
        from execute_loop_extends[OF this] e34 w1 show ?thesis
          by (auto intro: extends_trans)
      next
        case False
        with Suc.prems(2) \<open>i < tot\<close> m' have "w1' = w4"
          by (cases r4) (simp_all add: execute_loop_Suc[of i tot "Suc f"] xs_def)
        with e34 w1 show ?thesis by simp
      qed
    qed
  qed
qed

lemma run_continues:
  assumes "describe_auto_scaling_groups e g = [grp]" and "f \<le> f'"
  shows "extends p (run_world f e g B p fs) (run_world f' e g B p fs)"
proof -
  have "extends p (run_world f e g B p fs) (run_world (f + d) e g B p fs)" for d
  proof (induction d)
    case 0
    then show ?case by simp
  next
    case (Suc d)
    have "extends p (run_world (f + d) e g B p fs) (run_world (Suc (f + d)) e g B p fs)"
      using execute_loop_continues[OF run_loop[OF assms(1), of "f + d" p B fs, symmetric, symmetric]
          run_loop[OF assms(1), of "Suc (f + d)" p B fs, symmetric, symmetric]] .
    with Suc show ?case by (auto intro: extends_trans)
  qed
  from this[of "f' - f"] assms(2) show ?thesis by simp
qed

subsection \<open>The deployment state throughout a run\<close>

text \<open>
  Claim C8. Once the snapshot is taken (the group is described once, in the snapshot,
  and never after), at every point of the run, whatever the batch size: the shelf has
  the keys of the snapshot; every write after the snapshot puts \<^verbatim>\<open>'terminated'\<close> under
  one of these keys, so that each value is the one the snapshot left or \<^verbatim>\<open>'terminated'\<close>;
  the snapshot leaves \<^verbatim>\<open>'pending_replacement'\<close> under every instance id of the group;
  and when the store file held no other value than these two before the run (none at
  all when it did not exist), no key ever holds another value. A later point of the
  run (more fuel) continues the trace of an earlier one, and a key that held
  \<^verbatim>\<open>'terminated'\<close> at the earlier point holds it at the later one.
\<close>

theorem deployment_state_invariant:
  assumes "describe_auto_scaling_groups e g = [grp]"
  shows "keys_at (run_world fuel e g B p fs) p = snapshot_keys e g p fs
       \<and> trace (snapshot e g p fs) =
           ShelveOpen p # DescribeGroups g #
             map (\<lambda>i. StoreSet (InstanceId i) ''pending_replacement'') (Instances grp)
       \<and> (\<exists>evs. trace (run_world fuel e g B p fs) = trace (snapshot e g p fs) @ evs
             \<and> (\<forall>n. DescribeGroups n \<notin> set evs)
             \<and> (\<forall>k v. StoreSet k v \<in> set evs \<longrightarrow>
                   k \<in> set (snapshot_keys e g p fs) \<and> v = ''terminated''))
       \<and> (\<forall>k. value_at (run_world fuel e g B p fs) p k = value_at (snapshot e g p fs) p k
             \<or> value_at (run_world fuel e g B p fs) p k = Some ''terminated'')
       \<and> (\<forall>i \<in> set (Instances grp).
             value_at (snapshot e g p fs) p (InstanceId i) = Some ''pending_replacement'')
       \<and> ((\<forall>s kv. fs p = Some s \<longrightarrow> kv \<in> set (shelf_items s) \<longrightarrow>
               snd kv = ''pending_replacement'' \<or> snd kv = ''terminated'') \<longrightarrow>
           (\<forall>kv \<in> set (get_inventory p (run_world fuel e g B p fs)).
               snd kv = ''pending_replacement'' \<or> snd kv = ''terminated''))
       \<and> (\<forall>f' \<ge> fuel.
             (\<exists>evs. trace (run_world f' e g B p fs) = trace (run_world fuel e g B p fs) @ evs)
           \<and> (\<forall>k. value_at (run_world fuel e g B p fs) p k = Some ''terminated'' \<longrightarrow>
                  value_at (run_world f' e g B p fs) p k = Some ''terminated''))"
proof -
  define w' where "w' = run_world fuel e g B p fs"
  define w0 where "w0 = snapshot e g p fs"
  have A: "keys_at w' p = snapshot_keys e g p fs" unfolding w'_def by (rule run_keys[OF assms])
  have B: "trace w0 = ShelveOpen p # DescribeGroups g #
             map (\<lambda>i. StoreSet (InstanceId i) ''pending_replacement'') (Instances grp)"
    unfolding w0_def by (rule snapshot_trace[OF assms])
  from run_events[OF assms, of fuel B p fs] obtain evs where
    evs: "trace w' = trace w0 @ evs" "\<forall>ev \<in> set evs. is_loop_event (snapshot_keys e g p fs) ev"
    unfolding w'_def w0_def by blast
  have "\<forall>n. DescribeGroups n \<notin> set evs"
    using evs(2) is_loop_event_not_describe by blast
  moreover have "\<forall>k v. StoreSet k v \<in> set evs \<longrightarrow>
      k \<in> set (snapshot_keys e g p fs) \<and> v = ''terminated''"
    using evs(2) is_loop_event_StoreSet by blast
  ultimately have C: "\<exists>evs. trace w' = trace w0 @ evs
             \<and> (\<forall>n. DescribeGroups n \<notin> set evs)
             \<and> (\<forall>k v. StoreSet k v \<in> set evs \<longrightarrow>
                   k \<in> set (snapshot_keys e g p fs) \<and> v = ''terminated'')"
    using evs(1) by blast
  have D: "\<forall>k. value_at w' p k = value_at w0 p k \<or> value_at w' p k = Some ''terminated''"
    unfolding w'_def w0_def using run_values[OF assms] by blast
  have E: "\<forall>i \<in> set (Instances grp). value_at w0 p (InstanceId i) = Some ''pending_replacement''"
    unfolding w0_def by (simp add: snapshot_values[OF assms])
  have F: "(\<forall>s kv. fs p = Some s \<longrightarrow> kv \<in> set (shelf_items s) \<longrightarrow>
               snd kv = ''pending_replacement'' \<or> snd kv = ''terminated'') \<longrightarrow>
           (\<forall>kv \<in> set (get_inventory p w').
               snd kv = ''pending_replacement'' \<or> snd kv = ''terminated'')"
  proof (intro impI ballI)
    fix kv
    assume wf: "\<forall>s kv. fs p = Some s \<longrightarrow> kv \<in> set (shelf_items s) \<longrightarrow>
               snd kv = ''pending_replacement'' \<or> snd kv = ''terminated''"
      and kv: "kv \<in> set (get_inventory p w')"
    from kv have v: "value_at w' p (fst kv) = Some (snd kv)"
      using inventory_value[of "fst kv" "snd kv" p w'] by simp
    from D have "value_at w' p (fst kv) = value_at w0 p (fst kv)
        \<or> value_at w' p (fst kv) = Some ''terminated''" by blast
    then show "snd kv = ''pending_replacement'' \<or> snd kv = ''terminated''"
    proof
      assume "value_at w' p (fst kv) = Some ''terminated''"
      with v show ?thesis by simp
    next
      assume "value_at w' p (fst kv) = value_at w0 p (fst kv)"
      with v have v0: "value_at w0 p (fst kv) = Some (snd kv)" by simp
      show ?thesis
      proof (cases "fst kv \<in> InstanceId ` set (Instances grp)")
        case True
        with v0 show ?thesis unfolding w0_def by (simp add: snapshot_values[OF assms])
      next
        case False
        with v0 obtain s where s: "fs p = Some s" "DAList.lookup s (fst kv) = Some (snd kv)"
          unfolding w0_def by (auto simp: snapshot_values[OF assms] split: option.splits)
        then have "(fst kv, snd kv) \<in> set (shelf_items s)"
          by (simp add: shelf_items_def lookup.rep_eq)
        with wf s(1) have "snd (fst kv, snd kv) = ''pending_replacement''
            \<or> snd (fst kv, snd kv) = ''terminated''" by blast
        then show ?thesis by simp
      qed
    qed
  qed
  have G: "\<forall>f' \<ge> fuel.
             (\<exists>evs. trace (run_world f' e g B p fs) = trace w' @ evs)
           \<and> (\<forall>k. value_at w' p k = Some ''terminated'' \<longrightarrow>
                  value_at (run_world f' e g B p fs) p k = Some ''terminated'')"
    unfolding w'_def using run_continues[OF assms, of fuel _ p B fs]
    by (simp add: extends_def)
  note all = A B C D E F G
  show ?thesis by (intro conjI all[unfolded w'_def w0_def])
qed

theorem deployment_state_invariant_witness:
  "describe_auto_scaling_groups env_three ''g'' = [Group (map InstanceDesc [''a'', ''b'', ''c''])]
   \<and> keys_at (run_world 2 env_three ''g'' 2 ''s'' (\<lambda>p. None)) ''s'' = [''a'', ''b'', ''c'']
   \<and> get_inventory ''s'' (run_world 2 env_three ''g'' 2 ''s'' (\<lambda>p. None)) =
       [(''a'', ''pending_replacement''), (''b'', ''pending_replacement''),
        (''c'', ''pending_replacement'')]
   \<and> run_outcome 2 env_three ''g'' 2 ''s'' (\<lambda>p. None) = Running"
proof -
  have h: "describe_auto_scaling_groups env_three ''g'' =
      [Group (map InstanceDesc [''a'', ''b'', ''c''])]"
    by (simp add: env_three_def)
  have k: "snapshot_keys env_three ''g'' ''s'' (\<lambda>p. None) = [''a'', ''b'', ''c'']" by code_simp
  from deployment_state_invariant[OF h, of 2 2 "''s''" "\<lambda>p. None"] k
  have a: "keys_at (run_world 2 env_three ''g'' 2 ''s'' (\<lambda>p. None)) ''s'' = [''a'', ''b'', ''c'']"
    by simp
  have b: "get_inventory ''s'' (run_world 2 env_three ''g'' 2 ''s'' (\<lambda>p. None)) =
       [(''a'', ''pending_replacement''), (''b'', ''pending_replacement''),
        (''c'', ''pending_replacement'')]"
    by code_simp
  have c: "run_outcome 2 env_three ''g'' 2 ''s'' (\<lambda>p. None) = Running" by code_simp
  from h a b c show ?thesis by (simp only: simp_thms)
qed

end
